theory Spec2Isabelle
  imports Main "HOL-Library.Word"
begin

unbundle bit_operations_syntax

section \<open>The signalling protocol of q6: data\<close>

text \<open>
  The two programs of \<^verbatim>\<open>src/q6\<close> exchange one byte through the two user signals.
  \<^verbatim>\<open>signal_sender.cpp\<close> decomposes the byte and calls \<^verbatim>\<open>kill\<close> once per bit;
  \<^verbatim>\<open>signal_receiver.cpp\<close> rebuilds the byte in its signal handler.  The handler is
  installed for exactly these two signals, so its argument is one of them.
\<close>

datatype signal = SIGUSR1 | SIGUSR2

text \<open>The line terminator written by \<^verbatim>\<open>std::endl\<close> and tested by \<^verbatim>\<open>peek() != '\n'\<close>.\<close>

definition newline :: char where
  "newline = CHR 0x0A"

subsection \<open>Decimal output of \<^verbatim>\<open>operator<<(int)\<close>\<close>

text \<open>
  \<^verbatim>\<open>std::cout << result\<close> and \<^verbatim>\<open>std::cout << getpid()\<close> print an \<^verbatim>\<open>int\<close> in decimal,
  without padding, with a leading minus sign for a negative value.
\<close>

definition digit_char :: "nat \<Rightarrow> char" where
  "digit_char d = char_of (48 + d)"

function show_nat :: "nat \<Rightarrow> string" where
  "show_nat n = (if n < 10 then [digit_char n] else show_nat (n div 10) @ [digit_char (n mod 10)])"
  by pat_completeness auto
termination
  by (relation "measure (\<lambda>n. n)") auto

declare show_nat.simps [simp del]

definition show_int :: "int \<Rightarrow> string" where
  "show_int i = (if i < 0 then CHR ''-'' # show_nat (nat (- i)) else show_nat (nat i))"

section \<open>The receiver (\<^verbatim>\<open>signal_receiver.cpp\<close>)\<close>

text \<open>
  The two globals are \<^verbatim>\<open>volatile sig_atomic_t\<close>, a 32-bit \<^verbatim>\<open>int\<close>: they are words of 32
  bits, read as signed where the program prints them.  \<open>r_cout\<close> is what the process has
  written to its standard output.
\<close>

record receiver_state =
  bit_count :: "32 word"
  result :: "32 word"
  r_cout :: string

text \<open>
  A process is running, or has called \<^verbatim>\<open>exit\<close> with a status; the state it had is kept.
\<close>

datatype process = Running receiver_state | Exited int receiver_state

text \<open>
  \<^verbatim>\<open>handle_sigusr\<close>: shift \<^verbatim>\<open>result\<close> left by one, set its lowest bit for \<^verbatim>\<open>SIGUSR2\<close>,
  count the bit, and on the eighth print \<^verbatim>\<open>Received <result>\<close> and \<^verbatim>\<open>exit(0)\<close>.
\<close>

definition handle_sigusr :: "signal \<Rightarrow> receiver_state \<Rightarrow> process" where
  "handle_sigusr sig s =
     (let s1 = s\<lparr>result := push_bit 1 (result s)\<rparr>;
          s2 = (if sig = SIGUSR2 then s1\<lparr>result := result s1 OR 1\<rparr> else s1);
          s3 = s2\<lparr>bit_count := bit_count s2 + 1\<rparr>
      in if bit_count s3 = 8
         then Exited 0 (s3\<lparr>r_cout := r_cout s3 @ ''Received '' @ show_int (sint (result s3)) @ [newline]\<rparr>)
         else Running s3)"

text \<open>
  \<^verbatim>\<open>main\<close> of the receiver prints its process id, installs the handler and then sits in
  \<^verbatim>\<open>while (true) pause();\<close>.  The globals start at 0.
\<close>

definition receiver_main :: "int \<Rightarrow> process" where
  "receiver_main pid =
     Running \<lparr>bit_count = 0, result = 0, r_cout = ''My PID is '' @ show_int pid @ [newline]\<rparr>"

text \<open>
  One signal handled by the process: a running process runs the handler, and \<^verbatim>\<open>pause\<close>
  is entered again when the handler returns; a process that has exited handles nothing.
  \<open>receive\<close> handles a sequence of signals one after the other, in the order given.
\<close>

fun deliver :: "process \<Rightarrow> signal \<Rightarrow> process" where
  "deliver (Running s) sig = handle_sigusr sig s"
| "deliver (Exited c s) sig = Exited c s"

definition receive :: "process \<Rightarrow> signal list \<Rightarrow> process" where
  "receive p sigs = foldl deliver p sigs"

text \<open>
  The value spelled by a sequence of symbols, most significant first: \<^verbatim>\<open>SIGUSR1\<close> is
  the bit 0 and \<^verbatim>\<open>SIGUSR2\<close> the bit 1.
\<close>

definition bit_of :: "signal \<Rightarrow> nat" where
  "bit_of sig = (if sig = SIGUSR2 then 1 else 0)"

definition bits_val :: "signal list \<Rightarrow> nat" where
  "bits_val sigs = foldl (\<lambda>a sig. 2 * a + bit_of sig) 0 sigs"

section \<open>The sender (\<^verbatim>\<open>signal_sender.cpp\<close>)\<close>

subsection \<open>The operating system seen through \<^verbatim>\<open>kill\<close>\<close>

text \<open>
  \<^verbatim>\<open>kill(pid, sig)\<close> returns 0, or -1 with \<^verbatim>\<open>errno\<close> set.  What it answers is decided
  outside the program, and may change while the program runs (the target can vanish
  between two calls).  The environment is therefore a parameter: \<open>os n pid\<close> is the
  answer to the \<open>n\<close>-th call of \<^verbatim>\<open>kill\<close> of this run (counted from 0) when that call is
  aimed at \<open>pid\<close>; \<open>None\<close> is the return value 0 and \<open>Some e\<close> is -1 with \<^verbatim>\<open>errno = e\<close>.
\<close>

datatype errno = EPERM | ESRCH | EINVAL

type_synonym os = "nat \<Rightarrow> int \<Rightarrow> errno option"

text \<open>The text \<^verbatim>\<open>perror\<close> appends for each error number.\<close>

fun strerror :: "errno \<Rightarrow> string" where
  "strerror EPERM = ''Operation not permitted''"
| "strerror ESRCH = ''No such process''"
| "strerror EINVAL = ''Invalid argument''"

subsection \<open>The input stream \<^verbatim>\<open>std::cin\<close>\<close>

text \<open>
  The stream is the characters not read yet and the two state flags the program can
  observe (\<^verbatim>\<open>fail()\<close> reads \<open>failbit\<close>; a stream with either flag set is not
  \<^verbatim>\<open>good()\<close>).  The input is a finite sequence of characters, so its end, once reached,
  stays reached.  The operations are those of the C++ standard library that \<^verbatim>\<open>main\<close>
  calls, in the default configuration (decimal base, whitespace skipped, classic locale).
\<close>

record istream =
  buf :: string
  failbit :: bool
  eofbit :: bool

definition good :: "istream \<Rightarrow> bool" where
  "good c = (\<not> failbit c \<and> \<not> eofbit c)"

definition isspace :: "char \<Rightarrow> bool" where
  "isspace c = (c \<in> set [CHR '' '', CHR 0x09, CHR 0x0A, CHR 0x0B, CHR 0x0C, CHR 0x0D])"

definition isdigit :: "char \<Rightarrow> bool" where
  "isdigit c = (48 \<le> (of_char c :: nat) \<and> (of_char c :: nat) \<le> 57)"

definition digits_val :: "string \<Rightarrow> nat" where
  "digits_val ds = foldl (\<lambda>a c. 10 * a + ((of_char c :: nat) - 48)) 0 ds"

definition INT_MAX :: int where
  "INT_MAX = 2147483647"

definition INT_MIN :: int where
  "INT_MIN = - 2147483648"

text \<open>
  \<^verbatim>\<open>std::cin >> x\<close> for an \<^verbatim>\<open>int\<close> (and for \<^verbatim>\<open>pid_t\<close>, which is \<^verbatim>\<open>int\<close>).  \<open>old\<close> is the
  value the variable holds before the call; the result is the value it holds after.
  \<^item> A stream that is not good gets \<open>failbit\<close> and nothing is read or stored.
  \<^item> Leading whitespace is discarded; if the input ends there, both flags are set and
    nothing is stored.
  \<^item> An optional sign and the longest run of digits are consumed.  No digit: 0 is
    stored and \<open>failbit\<close> set.  A value outside \<^verbatim>\<open>int\<close>: the nearest bound is stored and
    \<open>failbit\<close> set.  \<open>eofbit\<close> is set when the input ended while reading the number.
\<close>

definition extract_int :: "int \<Rightarrow> istream \<Rightarrow> int \<times> istream" where
  "extract_int old c =
     (if \<not> good c then (old, c\<lparr>failbit := True\<rparr>)
      else case dropWhile isspace (buf c) of
        [] \<Rightarrow> (old, c\<lparr>buf := [], failbit := True, eofbit := True\<rparr>)
      | x # xs \<Rightarrow>
          (let body = (if x = CHR ''-'' \<or> x = CHR ''+'' then xs else x # xs);
               ds = takeWhile isdigit body;
               rest = dropWhile isdigit body;
               c1 = c\<lparr>buf := rest, eofbit := (rest = [])\<rparr>;
               n = (if x = CHR ''-'' then - int (digits_val ds) else int (digits_val ds))
           in if ds = [] then (0, c1\<lparr>failbit := True\<rparr>)
              else if n > INT_MAX then (INT_MAX, c1\<lparr>failbit := True\<rparr>)
              else if n < INT_MIN then (INT_MIN, c1\<lparr>failbit := True\<rparr>)
              else (n, c1)))"

text \<open>\<^verbatim>\<open>cin.clear()\<close> resets the flags.\<close>

definition clear :: "istream \<Rightarrow> istream" where
  "clear c = c\<lparr>failbit := False, eofbit := False\<rparr>"

text \<open>
  \<^verbatim>\<open>cin.ignore(numeric_limits<streamsize>::max(), '\n')\<close>: discards characters up to and
  including the next newline; if the input ends first, \<open>eofbit\<close> is set.
\<close>

definition ignore_line :: "istream \<Rightarrow> istream" where
  "ignore_line c =
     (if \<not> good c then c\<lparr>failbit := True\<rparr>
      else case dropWhile (\<lambda>x. x \<noteq> newline) (buf c) of
        [] \<Rightarrow> c\<lparr>buf := [], eofbit := True\<rparr>
      | x # rest \<Rightarrow> c\<lparr>buf := rest\<rparr>)"

text \<open>
  \<^verbatim>\<open>cin.peek()\<close>: the next character, not consumed; \<open>None\<close> is the value \<^verbatim>\<open>EOF\<close>.
\<close>

definition peek :: "istream \<Rightarrow> char option \<times> istream" where
  "peek c =
     (if \<not> good c then (None, c\<lparr>failbit := True\<rparr>)
      else case buf c of
        [] \<Rightarrow> (None, c\<lparr>eofbit := True\<rparr>)
      | x # xs \<Rightarrow> (Some x, c))"

subsection \<open>The state of the sender\<close>

text \<open>
  \<open>kills\<close> counts the calls of \<^verbatim>\<open>kill\<close> made so far; \<open>sent\<close> lists, in order, the signals
  that were delivered (the calls with a signal other than 0 that returned 0), each with
  the process it went to.
\<close>

record sender_state =
  cin :: istream
  cout :: string
  cerr :: string
  kills :: nat
  sent :: "(int \<times> signal) list"

subsection \<open>\<^verbatim>\<open>send_bit\<close> and the transmission loop\<close>

text \<open>
  \<^verbatim>\<open>send_bit\<close> picks \<^verbatim>\<open>SIGUSR1\<close> for the bit 0 and \<^verbatim>\<open>SIGUSR2\<close> otherwise and calls \<^verbatim>\<open>kill\<close>.
  On -1 it writes the \<^verbatim>\<open>perror\<close> line and calls \<^verbatim>\<open>exit(1)\<close>: the left summand is the
  exit status with the final state.  Otherwise it sleeps 100 ms (time is not part of
  the state) and returns.
\<close>

definition send_bit :: "os \<Rightarrow> int \<Rightarrow> int \<Rightarrow> sender_state \<Rightarrow> (int \<times> sender_state) + sender_state" where
  "send_bit os pid b s =
     (let sig = (if b = 0 then SIGUSR1 else SIGUSR2);
          s1 = s\<lparr>kills := Suc (kills s)\<rparr>
      in case os (kills s) pid of
           Some e \<Rightarrow> Inl (1, s1\<lparr>cerr := cerr s1 @ ''Failed to send signal: '' @ strerror e @ [newline]\<rparr>)
         | None \<Rightarrow> Inr (s1\<lparr>sent := sent s1 @ [(pid, sig)]\<rparr>))"

text \<open>
  \<^verbatim>\<open>for (int i = 7; i >= 0; --i) { int bit = (number >> i) & 1; send_bit(receiver_pid, bit); }\<close>
  as a recursion on \<open>i\<close>, entered with \<open>i = 7\<close>.
\<close>

function send_loop :: "os \<Rightarrow> int \<Rightarrow> int \<Rightarrow> int \<Rightarrow> sender_state \<Rightarrow> (int \<times> sender_state) + sender_state" where
  "send_loop os pid number i s =
     (if i \<ge> 0
      then (case send_bit os pid (drop_bit (nat i) number AND 1) s of
              Inl e \<Rightarrow> Inl e
            | Inr s' \<Rightarrow> send_loop os pid number (i - 1) s')
      else Inr s)"
  by pat_completeness auto
termination
  by (relation "measure (\<lambda>(os, pid, number, i, s). nat (i + 1))") auto

declare send_loop.simps [simp del]

subsection \<open>The two validation loops and \<^verbatim>\<open>main\<close>\<close>

text \<open>
  One pass through the body of a \<^verbatim>\<open>while (1)\<close> loop ends in \<^verbatim>\<open>continue\<close> or in \<^verbatim>\<open>break\<close>;
  either way it leaves a value in the variable being read and a new state.
\<close>

datatype iteration = Continue int sender_state | Break int sender_state

text \<open>
  The body of the first loop.  The three tests are evaluated left to right and stop at
  the first that holds, so \<^verbatim>\<open>kill(receiver_pid, 0)\<close> is called only for a number that was
  read and is positive.
\<close>

definition pid_body :: "os \<Rightarrow> int \<Rightarrow> sender_state \<Rightarrow> iteration" where
  "pid_body os receiver_pid s =
     (let s1 = s\<lparr>cout := cout s @ ''Enter receiver PID: ''\<rparr>;
          (pid, c1) = extract_int receiver_pid (cin s1);
          invalid = (\<lambda>t. t\<lparr>cin := ignore_line (clear c1),
                           cout := cout t @ ''Invalid or unavailable PID.'' @ [newline]\<rparr>)
      in if failbit c1 \<or> pid \<le> 0 then Continue pid (invalid s1)
         else if os (kills s1) pid \<noteq> None then Continue pid (invalid (s1\<lparr>kills := Suc (kills s1)\<rparr>))
         else Break pid (s1\<lparr>cin := c1, kills := Suc (kills s1)\<rparr>))"

partial_function (option) pid_loop :: "os \<Rightarrow> int \<Rightarrow> sender_state \<Rightarrow> (int \<times> sender_state) option" where
  "pid_loop os receiver_pid s =
     (case pid_body os receiver_pid s of
        Continue pid s' \<Rightarrow> pid_loop os pid s'
      | Break pid s' \<Rightarrow> Some (pid, s'))"

declare pid_loop.simps [code]

text \<open>The body of the second loop, with its three checks in the order of the source.\<close>

definition number_body :: "int \<Rightarrow> sender_state \<Rightarrow> iteration" where
  "number_body number s =
     (let s1 = s\<lparr>cout := cout s @ ''Enter message: ''\<rparr>;
          (n, c1) = extract_int number (cin s1)
      in if failbit c1
         then Continue n (s1\<lparr>cin := ignore_line (clear c1),
                cout := cout s1 @ ''Invalid input. Please enter a valid number between 0 and 255.'' @ [newline]\<rparr>)
         else (let (next, c2) = peek c1
               in if next \<noteq> Some newline
                  then Continue n (s1\<lparr>cin := ignore_line (clear c2),
                         cout := cout s1 @ ''Invalid input. Please enter a number between 0 and 255.'' @ [newline]\<rparr>)
                  else if n < 0 \<or> n > 255
                  then Continue n (s1\<lparr>cin := c2,
                         cout := cout s1 @ ''Invalid number. Please enter a number between 0 and 255.'' @ [newline]\<rparr>)
                  else Break n (s1\<lparr>cin := c2\<rparr>)))"

partial_function (option) number_loop :: "int \<Rightarrow> sender_state \<Rightarrow> (int \<times> sender_state) option" where
  "number_loop number s =
     (case number_body number s of
        Continue n s' \<Rightarrow> number_loop n s'
      | Break n s' \<Rightarrow> Some (n, s'))"

declare number_loop.simps [code]

text \<open>
  \<^verbatim>\<open>main\<close>.  Both variables are uninitialised when the loops start: their first values
  are parameters.  The result is \<open>None\<close> when a validation loop never ends, and otherwise
  the exit status with the final state (status 0 from \<^verbatim>\<open>return 0\<close>).
\<close>

definition sender_start :: "string \<Rightarrow> sender_state" where
  "sender_start input =
     \<lparr>cin = \<lparr>buf = input, failbit = False, eofbit = False\<rparr>,
      cout = [], cerr = [], kills = 0, sent = []\<rparr>"

definition sender_main :: "os \<Rightarrow> int \<Rightarrow> int \<Rightarrow> string \<Rightarrow> (int \<times> sender_state) option" where
  "sender_main os pid0 number0 input =
     (case pid_loop os pid0 (sender_start input) of
        None \<Rightarrow> None
      | Some (receiver_pid, s1) \<Rightarrow>
          (case number_loop number0 s1 of
             None \<Rightarrow> None
           | Some (number, s2) \<Rightarrow>
               (case send_loop os receiver_pid number 7 s2 of
                  Inl e \<Rightarrow> Some e
                | Inr s3 \<Rightarrow> Some (0, s3))))"

section \<open>The receiver under asynchronous signals\<close>

text \<open>
  \<open>receive\<close> above runs the handler once per signal, one run after the other.  Whether
  the running program behaves so is a matter of how signals are delivered while it
  runs.  This section models that: the handler as the sequence of its accesses to the
  two globals, and the delivery of signals as the operating system performs it for a
  handler installed with \<^verbatim>\<open>sigaction\<close>.
\<close>

subsection \<open>What \<^verbatim>\<open>main\<close> passes to \<^verbatim>\<open>sigaction\<close>\<close>

text \<open>
  \<^verbatim>\<open>struct sigaction sa;\<close> is a local variable that \<^verbatim>\<open>main\<close> does not initialise.  It sets
  \<^verbatim>\<open>sa_handler\<close> and, through \<^verbatim>\<open>sigemptyset\<close> and \<^verbatim>\<open>sigaddset\<close>, \<^verbatim>\<open>sa_mask\<close>; it never assigns
  \<^verbatim>\<open>sa_flags\<close>, which therefore holds whatever the stack held.  Of the flags, two change
  what happens when a signal is delivered and are modelled: \<^verbatim>\<open>SA_NODEFER\<close> (the signal
  being delivered is not added to the mask by itself) and \<^verbatim>\<open>SA_RESETHAND\<close> (the action is
  reset to the default when the handler is entered).  The handler is always
  \<^verbatim>\<open>handle_sigusr\<close>, so an action is the default one, or this handler with a mask and
  flags.
\<close>

datatype sa_flag = SA_NODEFER | SA_RESETHAND

record sigaction =
  sa_mask :: "signal set"
  sa_flags :: "sa_flag set"

datatype disposition = SIG_DFL | Caught sigaction

definition sigemptyset :: "sigaction \<Rightarrow> sigaction" where
  "sigemptyset sa = sa\<lparr>sa_mask := {}\<rparr>"

definition sigaddset :: "signal \<Rightarrow> sigaction \<Rightarrow> sigaction" where
  "sigaddset sig sa = sa\<lparr>sa_mask := insert sig (sa_mask sa)\<rparr>"

subsection \<open>The handler, one access at a time\<close>

text \<open>
  Each read and each write of a \<^verbatim>\<open>volatile\<close> global is a step of its own; \<open>f_reg\<close> holds
  the value last read.  The labels follow the statements of \<^verbatim>\<open>handle_sigusr\<close>:
  \<^verbatim>\<open>result <<= 1\<close> (read, write), the test of \<^verbatim>\<open>sig\<close>, \<^verbatim>\<open>result |= 1\<close> (read, write),
  \<^verbatim>\<open>bit_count++\<close> (read, write), the test \<^verbatim>\<open>bit_count == 8\<close>, the output with \<^verbatim>\<open>exit(0)\<close>,
  and the return.  \<open>f_saved\<close> is the signal mask that the return restores.
\<close>

datatype label =
  Load_result | Store_shifted | Test_sig | Load_result_again | Store_or |
  Load_count | Store_count | Test_count | Print_exit | Return

record frame =
  f_sig :: signal
  f_pc :: label
  f_reg :: "32 word"
  f_saved :: "signal set"

datatype micro = Next frame receiver_state | Returns | Exits int receiver_state

definition exec :: "frame \<Rightarrow> receiver_state \<Rightarrow> micro" where
  "exec f g =
     (case f_pc f of
        Load_result \<Rightarrow> Next (f\<lparr>f_reg := result g, f_pc := Store_shifted\<rparr>) g
      | Store_shifted \<Rightarrow> Next (f\<lparr>f_pc := Test_sig\<rparr>) (g\<lparr>result := push_bit 1 (f_reg f)\<rparr>)
      | Test_sig \<Rightarrow> Next (f\<lparr>f_pc := (if f_sig f = SIGUSR2 then Load_result_again else Load_count)\<rparr>) g
      | Load_result_again \<Rightarrow> Next (f\<lparr>f_reg := result g, f_pc := Store_or\<rparr>) g
      | Store_or \<Rightarrow> Next (f\<lparr>f_pc := Load_count\<rparr>) (g\<lparr>result := f_reg f OR 1\<rparr>)
      | Load_count \<Rightarrow> Next (f\<lparr>f_reg := bit_count g, f_pc := Store_count\<rparr>) g
      | Store_count \<Rightarrow> Next (f\<lparr>f_pc := Test_count\<rparr>) (g\<lparr>bit_count := f_reg f + 1\<rparr>)
      | Test_count \<Rightarrow> Next (f\<lparr>f_pc := (if bit_count g = 8 then Print_exit else Return)\<rparr>) g
      | Print_exit \<Rightarrow>
          Exits 0 (g\<lparr>r_cout := r_cout g @ ''Received '' @ show_int (sint (result g)) @ [newline]\<rparr>)
      | Return \<Rightarrow> Returns)"

text \<open>The steps left before the handler ends bound the length of its run.\<close>

fun rank :: "label \<Rightarrow> nat" where
  "rank Load_result = 9"
| "rank Store_shifted = 8"
| "rank Test_sig = 7"
| "rank Load_result_again = 6"
| "rank Store_or = 5"
| "rank Load_count = 4"
| "rank Store_count = 3"
| "rank Test_count = 2"
| "rank Print_exit = 1"
| "rank Return = 0"

text \<open>
  \<open>finish\<close> runs a handler that has reached \<open>f\<close> to its end with nothing in between:
  it returns to \<^verbatim>\<open>pause\<close> with the globals it leaves, or exits.
\<close>

function finish :: "frame \<Rightarrow> receiver_state \<Rightarrow> process" where
  "finish f g =
     (case exec f g of
        Next f' g' \<Rightarrow> finish f' g'
      | Returns \<Rightarrow> Running g
      | Exits code g' \<Rightarrow> Exited code g')"
  by pat_completeness auto
termination
  by (relation "measure (\<lambda>(f, g). rank (f_pc f))") (auto simp: exec_def split: label.splits)

declare finish.simps [simp del]

subsection \<open>The process and the delivery of signals\<close>

text \<open>
  The process has its globals, the set of pending signals (a standard signal is
  pending or not: a second arrival of a pending signal leaves no trace), the signal
  mask, the handler invocations in progress (innermost first), the action of each
  signal, and how it ended if it has.  While no handler runs, \<^verbatim>\<open>main\<close> is inside
  \<^verbatim>\<open>pause()\<close> and touches nothing.
\<close>

datatype ending = Exited_with int | Killed_by signal

record receiver_proc =
  globals :: receiver_state
  pending :: "signal set"
  blocked :: "signal set"
  frames :: "frame list"
  disp :: "signal \<Rightarrow> disposition"
  ended :: "ending option"

text \<open>
  What can happen next, one event at a time; \<open>None\<close> means that the event cannot
  happen in this state.
  \<^item> \<open>Arrive sig\<close>: some process sends \<open>sig\<close>; it becomes pending.
  \<^item> \<open>Deliver sig\<close>: the system delivers a signal that is pending and not blocked, at
    any point of the program, also in the middle of a handler.  With the default
    action the process is terminated.  With the handler installed, a new invocation
    starts on top of whatever was running; the mask in force is saved and extended by
    \<^verbatim>\<open>sa_mask\<close> and, unless \<^verbatim>\<open>SA_NODEFER\<close> is set, by the signal itself; with
    \<^verbatim>\<open>SA_RESETHAND\<close> the action becomes the default.
  \<^item> \<open>Run\<close>: the innermost invocation takes its next step; its return restores the
    saved mask and resumes what was interrupted.
  A process that has ended takes no step.
\<close>

datatype event = Arrive signal | Deliver signal | Run

definition step :: "event \<Rightarrow> receiver_proc \<Rightarrow> receiver_proc option" where
  "step ev c =
     (if ended c \<noteq> None then None
      else case ev of
        Arrive sig \<Rightarrow> Some (c\<lparr>pending := insert sig (pending c)\<rparr>)
      | Deliver sig \<Rightarrow>
          if sig \<in> pending c \<and> sig \<notin> blocked c
          then (case disp c sig of
                  SIG_DFL \<Rightarrow> Some (c\<lparr>pending := pending c - {sig}, ended := Some (Killed_by sig)\<rparr>)
                | Caught sa \<Rightarrow>
                    Some (c\<lparr>pending := pending c - {sig},
                            frames := \<lparr>f_sig = sig, f_pc = Load_result, f_reg = 0, f_saved = blocked c\<rparr> # frames c,
                            blocked := blocked c \<union> sa_mask sa \<union>
                                       (if SA_NODEFER \<in> sa_flags sa then {} else {sig}),
                            disp := (if SA_RESETHAND \<in> sa_flags sa then (disp c)(sig := SIG_DFL)
                                     else disp c)\<rparr>))
          else None
      | Run \<Rightarrow>
          (case frames c of
             [] \<Rightarrow> None
           | f # fs \<Rightarrow>
               (case exec f (globals c) of
                  Next f' g' \<Rightarrow> Some (c\<lparr>frames := f' # fs, globals := g'\<rparr>)
                | Returns \<Rightarrow> Some (c\<lparr>frames := fs, blocked := f_saved f\<rparr>)
                | Exits code g' \<Rightarrow> Some (c\<lparr>globals := g', ended := Some (Exited_with code)\<rparr>))))"

text \<open>A sequence of events, and the signals it delivers, in order.\<close>

fun run :: "event list \<Rightarrow> receiver_proc \<Rightarrow> receiver_proc option" where
  "run [] c = Some c"
| "run (ev # evs) c = (case step ev c of None \<Rightarrow> None | Some c' \<Rightarrow> run evs c')"

fun delivered :: "event list \<Rightarrow> signal list" where
  "delivered [] = []"
| "delivered (Deliver sig # evs) = sig # delivered evs"
| "delivered (ev # evs) = delivered evs"

text \<open>
  The process when \<^verbatim>\<open>main\<close> reaches its \<^verbatim>\<open>pause\<close> loop: the process id printed, the globals
  0, the same action stored for both signals.  \<open>sa0\<close> is the uninitialised content of
  \<^verbatim>\<open>sa\<close>, and \<open>mask0\<close> the signal mask the process was started with.  Both calls of
  \<^verbatim>\<open>sigaction\<close> are taken to succeed (the program does not test them), and no signal is
  taken to arrive before they are done.
\<close>

definition receiver_ready :: "sigaction \<Rightarrow> signal set \<Rightarrow> int \<Rightarrow> receiver_proc" where
  "receiver_ready sa0 mask0 pid =
     (let sa = sigaddset SIGUSR2 (sigaddset SIGUSR1 (sigemptyset sa0))
      in \<lparr>globals = \<lparr>bit_count = 0, result = 0, r_cout = ''My PID is '' @ show_int pid @ [newline]\<rparr>,
          pending = {}, blocked = mask0, frames = [],
          disp = (\<lambda>sig. SIG_DFL)(SIGUSR1 := Caught sa, SIGUSR2 := Caught sa),
          ended = None\<rparr>)"

text \<open>
  The invariant behind the claim on re-entrancy, for the signals \<open>ds\<close> delivered so far:
  every action still in force carries the mask of both signals; at most one invocation
  is in progress; the process is where running the handler once per delivered signal,
  one after the other, would have brought it, up to the rest of the invocation in
  progress; and while an invocation is in progress both signals are blocked.
\<close>

definition both :: "signal set" where
  "both = {SIGUSR1, SIGUSR2}"

definition serial :: "signal set \<Rightarrow> int \<Rightarrow> signal list \<Rightarrow> receiver_proc \<Rightarrow> bool" where
  "serial mask0 pid ds c \<longleftrightarrow>
     (\<forall>sig. disp c sig = SIG_DFL \<or> (\<exists>sa. disp c sig = Caught sa \<and> sa_mask sa = both)) \<and>
     length (frames c) \<le> 1 \<and>
     (\<forall>code. ended c = Some (Exited_with code) \<longrightarrow>
        receive (receiver_main pid) ds = Exited code (globals c)) \<and>
     (ended c = None \<and> frames c = [] \<longrightarrow>
        blocked c = mask0 \<and> receive (receiver_main pid) ds = Running (globals c)) \<and>
     (\<forall>f fs. ended c = None \<and> frames c = f # fs \<longrightarrow>
        fs = [] \<and> f_saved f = mask0 \<and> both \<subseteq> blocked c \<and>
        receive (receiver_main pid) ds = finish f (globals c))"

section \<open>Invariants stated by the specification\<close>

text \<open>
  The accumulator invariant after the symbols \<open>sigs\<close>: the counter is their number, bit
  \<open>i\<close> of \<open>result\<close> below that number is the symbol received \<open>i\<close> places before the last
  one (so the first symbol received is the most significant bit), and every higher bit
  of the 32-bit word is zero.
\<close>

definition prefix_inv :: "signal list \<Rightarrow> receiver_state \<Rightarrow> bool" where
  "prefix_inv sigs s \<longleftrightarrow>
     unat (bit_count s) = length sigs \<and>
     (\<forall>i \<in> {0..<length sigs}. bit (result s) i = (rev sigs ! i = SIGUSR2)) \<and>
     (\<forall>i \<in> {length sigs..<32}. \<not> bit (result s) i)"

text \<open>
  What the specification asks of the operator's input, in its words: the process id is
  a positive integer, the value an integer with no trailing characters.  \<open>spells inp v rest\<close>
  says that the text \<open>inp\<close> begins with optional whitespace, an optional sign and a run of
  decimal digits that is not empty and not followed by a further digit, that the number
  written is \<open>v\<close>, and that \<open>rest\<close> is the text after it.
\<close>

definition spells :: "string \<Rightarrow> int \<Rightarrow> string \<Rightarrow> bool" where
  "spells inp v rest \<longleftrightarrow>
     (\<exists>ws sgn ds. inp = ws @ sgn @ ds @ rest \<and> (\<forall>x \<in> set ws. isspace x) \<and>
        sgn \<in> {[], ''+'', ''-''} \<and> ds \<noteq> [] \<and> (\<forall>x \<in> set ds. isdigit x) \<and>
        (rest = [] \<or> \<not> isdigit (hd rest)) \<and>
        v = (if sgn = ''-'' then - int (digits_val ds) else int (digits_val ds)))"

text \<open>
  The state after \<open>k\<close> passes through the body of a validation loop that all ended in
  \<^verbatim>\<open>continue\<close>, with the value then held by the variable; \<open>None\<close> if one of the \<open>k\<close> passes
  ended in \<^verbatim>\<open>break\<close>.
\<close>

fun pid_retries :: "nat \<Rightarrow> os \<Rightarrow> int \<Rightarrow> sender_state \<Rightarrow> (int \<times> sender_state) option" where
  "pid_retries 0 os p s = Some (p, s)"
| "pid_retries (Suc k) os p s =
     (case pid_body os p s of
        Continue p' s' \<Rightarrow> pid_retries k os p' s'
      | Break p' s' \<Rightarrow> None)"

fun number_retries :: "nat \<Rightarrow> int \<Rightarrow> sender_state \<Rightarrow> (int \<times> sender_state) option" where
  "number_retries 0 n s = Some (n, s)"
| "number_retries (Suc k) n s =
     (case number_body n s of
        Continue n' s' \<Rightarrow> number_retries k n' s'
      | Break n' s' \<Rightarrow> None)"

text \<open>
  The channel does not queue: a signal that arrives while one of the same kind is still
  pending is merged with it, and the receiver's handler runs once for the two.  The
  receiver then handles the sequence that was sent with one element missing; \<open>lose_at i\<close>
  removes the element at position \<open>i\<close> (counted from 0).
\<close>

definition lose_at :: "nat \<Rightarrow> 'a list \<Rightarrow> 'a list" where
  "lose_at i xs = take i xs @ drop (Suc i) xs"

section \<open>Properties of the receiver\<close>

lemma bits_val_Nil: "bits_val [] = 0"
  by (simp add: bits_val_def)

lemma bits_val_snoc: "bits_val (xs @ [x]) = 2 * bits_val xs + bit_of x"
  by (simp add: bits_val_def)

lemma bits_val_bound: "bits_val xs < 2 ^ length xs"
proof (induction xs rule: rev_induct)
  case Nil
  show ?case by (simp add: bits_val_Nil)
next
  case (snoc x xs)
  have "bit_of x \<le> 1" by (simp add: bit_of_def)
  with snoc show ?case by (simp add: bits_val_snoc)
qed

lemma receive_Nil: "receive p [] = p"
  by (simp add: receive_def)

lemma receive_snoc: "receive p (xs @ [x]) = deliver (receive p xs) x"
  by (simp add: receive_def)

lemma receive_append: "receive p (xs @ ys) = receive (receive p xs) ys"
  by (simp add: receive_def)

lemma receive_Exited: "receive (Exited c s) xs = Exited c s"
  by (induction xs) (simp_all add: receive_def)

lemma shift_in: "push_bit 1 (of_nat n :: 32 word) OR of_nat (bit_of x) = of_nat (2 * n + bit_of x)"
  by (simp add: bit_of_def push_bit_eq_mult or_one_eq)

lemma count_ne_8:
  assumes "k < 7"
  shows "(of_nat k :: 32 word) + 1 \<noteq> 8"
proof -
  have "(of_nat k :: 32 word) + 1 = of_nat (Suc k)" by simp
  moreover have "(8 :: 32 word) = of_nat 8" by simp
  moreover have "(of_nat (Suc k) :: 32 word) \<noteq> of_nat 8"
    using assms by (simp only: word_of_nat_eq_iff take_bit_nat_eq_self_iff) (simp add: take_bit_nat_eq_self)
  ultimately show ?thesis by metis
qed

lemma handle_sigusr_step:
  "k < 7 \<Longrightarrow>
   handle_sigusr x \<lparr>bit_count = of_nat k, result = of_nat n, r_cout = out\<rparr> =
   Running \<lparr>bit_count = of_nat (Suc k), result = of_nat (2 * n + bit_of x), r_cout = out\<rparr>"
  using count_ne_8 [of k] shift_in [of n x]
  by (cases x) (simp_all add: handle_sigusr_def bit_of_def)

lemma receive_prefix:
  "length sigs < 8 \<Longrightarrow>
   receive (receiver_main pid) sigs =
   Running \<lparr>bit_count = of_nat (length sigs), result = of_nat (bits_val sigs),
            r_cout = ''My PID is '' @ show_int pid @ [newline]\<rparr>"
proof (induction sigs rule: rev_induct)
  case Nil
  show ?case by (simp add: receive_Nil receiver_main_def bits_val_Nil)
next
  case (snoc x xs)
  then have "length xs < 7" by simp
  with snoc show ?case
    by (simp add: receive_snoc handle_sigusr_step bits_val_snoc)
qed

lemma sint_of_nat_small:
  assumes "m < 2 ^ 31"
  shows "sint (of_nat m :: 32 word) = int m"
proof -
  have "signed_take_bit 31 (int m) = int m"
    using assms by (intro signed_take_bit_int_eq_self) simp_all
  then show ?thesis
    by (simp only: signed_of_nat) simp
qed

lemma handle_sigusr_last:
  assumes n: "n < 128"
  shows "handle_sigusr x \<lparr>bit_count = 7, result = of_nat n, r_cout = out\<rparr> =
   Exited 0 \<lparr>bit_count = 8, result = of_nat (2 * n + bit_of x),
             r_cout = out @ ''Received '' @ show_int (int (2 * n + bit_of x)) @ [newline]\<rparr>"
proof -
  define w :: "32 word" where "w = of_nat (2 * n + bit_of x)"
  have b: "bit_of x \<le> 1" by (simp add: bit_of_def)
  have w: "sint w = int (2 * n + bit_of x)"
    unfolding w_def using n b by (intro sint_of_nat_small) simp
  have sh: "(if x = SIGUSR2 then push_bit 1 (of_nat n) OR 1 else push_bit 1 (of_nat n)) = w"
    unfolding w_def by (simp add: bit_of_def push_bit_eq_mult or_one_eq)
  have "handle_sigusr x \<lparr>bit_count = 7, result = of_nat n, r_cout = out\<rparr> =
    Exited 0 \<lparr>bit_count = 8, result = w, r_cout = out @ ''Received '' @ show_int (sint w) @ [newline]\<rparr>"
    using sh by (cases x) (simp_all add: handle_sigusr_def)
  then show ?thesis
    by (simp only: w) (simp only: w_def)
qed

lemma receive_eight:
  "length sigs = 8 \<Longrightarrow>
   receive (receiver_main pid) sigs =
   Exited 0 \<lparr>bit_count = 8, result = of_nat (bits_val sigs),
             r_cout = ''My PID is '' @ show_int pid @ [newline] @
                      ''Received '' @ show_int (int (bits_val sigs)) @ [newline]\<rparr>"
proof -
  assume len: "length sigs = 8"
  then obtain xs x where sigs: "sigs = xs @ [x]"
    by (cases sigs rule: rev_cases) auto
  with len have l7: "length xs = 7" by simp
  have "bits_val xs < 2 ^ length xs" by (rule bits_val_bound)
  with l7 have "bits_val xs < 128" by simp
  then show ?thesis
    using l7 by (simp add: sigs receive_snoc receive_prefix handle_sigusr_last bits_val_snoc)
qed

lemma bit_bits_val: "bit (bits_val sigs) i \<longleftrightarrow> i < length sigs \<and> rev sigs ! i = SIGUSR2"
proof (induction sigs arbitrary: i rule: rev_induct)
  case Nil
  show ?case by (simp add: bits_val_Nil)
next
  case (snoc x xs)
  show ?case
  proof (cases i)
    case 0
    then show ?thesis by (simp add: bits_val_snoc bit_0 bit_of_def)
  next
    case (Suc j)
    have "(2 * bits_val xs + bit_of x) div 2 = bits_val xs"
      by (simp add: bit_of_def)
    then show ?thesis
      using Suc snoc.IH [of j] by (simp add: bits_val_snoc bit_Suc)
  qed
qed

lemma prefix_inv_iff:
  assumes "length sigs < 32"
  shows "prefix_inv sigs s \<longleftrightarrow>
         bit_count s = of_nat (length sigs) \<and> result s = of_nat (bits_val sigs)"
proof
  assume inv: "prefix_inv sigs s"
  have "bit_count s = of_nat (unat (bit_count s))" by simp
  with inv have c: "bit_count s = of_nat (length sigs)" by (simp add: prefix_inv_def)
  have "bit (result s) i \<longleftrightarrow> bit (of_nat (bits_val sigs) :: 32 word) i" if "i < 32" for i
  proof (cases "i < length sigs")
    case True
    with inv that show ?thesis by (simp add: prefix_inv_def bit_of_nat_iff bit_bits_val)
  next
    case False
    with inv that have "\<not> bit (result s) i" by (simp add: prefix_inv_def)
    with False show ?thesis by (simp add: bit_of_nat_iff bit_bits_val)
  qed
  then have "result s = of_nat (bits_val sigs)"
    by (intro bit_word_eqI) simp
  with c show "bit_count s = of_nat (length sigs) \<and> result s = of_nat (bits_val sigs)" ..
next
  assume eq: "bit_count s = of_nat (length sigs) \<and> result s = of_nat (bits_val sigs)"
  have "unat (of_nat (length sigs) :: 32 word) = length sigs"
    using assms by (simp add: unat_of_nat)
  with eq assms show "prefix_inv sigs s"
    by (auto simp add: prefix_inv_def bit_of_nat_iff bit_bits_val)
qed

lemma sint_bits_val:
  assumes "length sigs < 32"
  shows "sint (of_nat (bits_val sigs) :: 32 word) = int (bits_val sigs)"
proof -
  have "bits_val sigs < 2 ^ length sigs" by (rule bits_val_bound)
  also have "(2::nat) ^ length sigs \<le> 2 ^ 31"
    using assms by (intro power_increasing) simp_all
  finally show ?thesis by (rule sint_of_nat_small)
qed

section \<open>Properties of the transmission loop\<close>

lemma and_one_zero_iff: "(drop_bit i (v::int) AND 1 = 0) = (\<not> bit v i)"
  by (simp add: and_one_eq bit_iff_odd_drop_bit even_iff_mod_2_eq_zero)

lemma send_bit_ok:
  "os (kills s) pid = None \<Longrightarrow>
   send_bit os pid (drop_bit i v AND 1) s =
   Inr (s\<lparr>kills := Suc (kills s), sent := sent s @ [(pid, if bit v i then SIGUSR2 else SIGUSR1)]\<rparr>)"
  by (simp add: send_bit_def and_one_zero_iff)

lemma send_bit_fail:
  "os (kills s) pid = Some e \<Longrightarrow>
   send_bit os pid b s =
   Inl (1, s\<lparr>kills := Suc (kills s), cerr := cerr s @ ''Failed to send signal: '' @ strerror e @ [newline]\<rparr>)"
  by (simp add: send_bit_def)

lemma send_loop_ok:
  "(\<And>n. n < m \<Longrightarrow> os (kills s + n) pid = None) \<Longrightarrow>
   send_loop os pid v (int m - 1) s =
   Inr (s\<lparr>kills := kills s + m,
          sent := sent s @ map (\<lambda>i. (pid, if bit v i then SIGUSR2 else SIGUSR1)) (rev [0..<m])\<rparr>)"
proof (induction m arbitrary: s)
  case 0
  show ?case by (simp add: send_loop.simps)
next
  case (Suc m)
  let ?s1 = "s\<lparr>kills := Suc (kills s), sent := sent s @ [(pid, if bit v m then SIGUSR2 else SIGUSR1)]\<rparr>"
  have first: "os (kills s) pid = None" using Suc.prems [of 0] by simp
  have rest: "os (kills ?s1 + n) pid = None" if "n < m" for n
    using Suc.prems [of "Suc n"] that by simp
  have "send_loop os pid v (int (Suc m) - 1) s = send_loop os pid v (int m - 1) ?s1"
    using send_bit_ok [of os s pid m v] first
    by (subst send_loop.simps) simp
  also have "\<dots> = Inr (?s1\<lparr>kills := kills ?s1 + m,
          sent := sent ?s1 @ map (\<lambda>i. (pid, if bit v i then SIGUSR2 else SIGUSR1)) (rev [0..<m])\<rparr>)"
    using rest by (rule Suc.IH)
  finally show ?case by simp
qed

lemma rev_upt_8: "rev [0..<8] = [7, 6, 5, 4, 3, 2, 1, 0::nat]"
  by (simp add: upt_rec)

lemma send_loop_fail:
  "j < m \<Longrightarrow> (\<And>n. n < j \<Longrightarrow> os (kills s + n) pid = None) \<Longrightarrow> os (kills s + j) pid = Some e \<Longrightarrow>
   send_loop os pid v (int m - 1) s =
   Inl (1, s\<lparr>kills := kills s + j + 1,
          sent := sent s @ map (\<lambda>i. (pid, if bit v i then SIGUSR2 else SIGUSR1)) (take j (rev [0..<m])),
          cerr := cerr s @ ''Failed to send signal: '' @ strerror e @ [newline]\<rparr>)"
proof (induction m arbitrary: s j)
  case 0
  then show ?case by simp
next
  case (Suc m)
  show ?case
  proof (cases j)
    case 0
    with Suc.prems have "os (kills s) pid = Some e" by simp
    then have "send_loop os pid v (int (Suc m) - 1) s =
       Inl (1, s\<lparr>kills := Suc (kills s), cerr := cerr s @ ''Failed to send signal: '' @ strerror e @ [newline]\<rparr>)"
      using send_bit_fail [of os s pid e "drop_bit m v AND 1"]
      by (subst send_loop.simps) simp
    with 0 show ?thesis by simp
  next
    case (Suc j')
    let ?s1 = "s\<lparr>kills := Suc (kills s), sent := sent s @ [(pid, if bit v m then SIGUSR2 else SIGUSR1)]\<rparr>"
    have first: "os (kills s) pid = None" using Suc.prems(2) [of 0] Suc by simp
    have lt: "j' < m" using Suc.prems(1) Suc by simp
    have rest: "os (kills ?s1 + n) pid = None" if "n < j'" for n
      using Suc.prems(2) [of "Suc n"] that Suc by simp
    have bad: "os (kills ?s1 + j') pid = Some e"
      using Suc.prems(3) Suc by simp
    have "send_loop os pid v (int (Suc m) - 1) s = send_loop os pid v (int m - 1) ?s1"
      using send_bit_ok [of os s pid m v] first
      by (subst send_loop.simps) simp
    also have "\<dots> = Inl (1, ?s1\<lparr>kills := kills ?s1 + j' + 1,
          sent := sent ?s1 @ map (\<lambda>i. (pid, if bit v i then SIGUSR2 else SIGUSR1)) (take j' (rev [0..<m])),
          cerr := cerr ?s1 @ ''Failed to send signal: '' @ strerror e @ [newline]\<rparr>)"
      using lt rest bad by (rule Suc.IH)
    finally show ?thesis using Suc by simp
  qed
qed

lemma bit_of_if: "bit_of (if b then SIGUSR2 else SIGUSR1) = of_bool b"
  by (simp add: bit_of_def)

lemma symbols_snoc:
  "map (\<lambda>i. if bit (v::int) i then SIGUSR2 else SIGUSR1) (rev [0..<Suc m]) =
   map (\<lambda>i. if bit (v div 2) i then SIGUSR2 else SIGUSR1) (rev [0..<m]) @ [if bit v 0 then SIGUSR2 else SIGUSR1]"
proof -
  have "[0..<Suc m] = 0 # map Suc [0..<m]"
    by (simp add: upt_conv_Cons map_Suc_upt del: upt_Suc)
  then show ?thesis
    by (simp add: rev_map bit_Suc del: upt_Suc)
qed

lemma bits_val_symbols:
  "0 \<le> v \<Longrightarrow> bits_val (map (\<lambda>i. if bit (v::int) i then SIGUSR2 else SIGUSR1) (rev [0..<m])) = nat (v mod 2 ^ m)"
proof (induction m arbitrary: v)
  case 0
  show ?case by (simp add: bits_val_Nil)
next
  case (Suc m)
  have h: "0 \<le> v div 2" using Suc.prems by simp
  have "bits_val (map (\<lambda>i. if bit v i then SIGUSR2 else SIGUSR1) (rev [0..<Suc m])) =
        2 * nat ((v div 2) mod 2 ^ m) + of_bool (odd v)"
    by (simp only: symbols_snoc bits_val_snoc Suc.IH [OF h] bit_of_if bit_0)
  also have "\<dots> = nat (2 * ((v div 2) mod 2 ^ m) + of_bool (odd v))"
    by (simp add: nat_add_distrib nat_mult_distrib)
  also have "2 * ((v div 2) mod 2 ^ m) + of_bool (odd v) = v mod 2 ^ Suc m"
    using take_bit_Suc [of m v] by (simp add: take_bit_eq_mod mod_2_eq_odd)
  finally show ?case .
qed

section \<open>Decimal output at the values used below\<close>

lemma show_int_0: "show_int 0 = ''0''"
  by code_simp

lemma show_int_255: "show_int 255 = ''255''"
  by code_simp

lemma show_int_77: "show_int 77 = ''77''"
  by code_simp

lemma show_int_169: "show_int 169 = ''169''"
  by code_simp

lemma bits_val_169:
  "bits_val [SIGUSR2, SIGUSR1, SIGUSR2, SIGUSR1, SIGUSR2, SIGUSR1, SIGUSR1, SIGUSR2] = 169"
  by (simp add: bits_val_def bit_of_def)

lemma length_lose_at: "i < length xs \<Longrightarrow> length (lose_at i xs) = length xs - 1"
  by (simp add: lose_at_def)

lemma show_int_170: "show_int 170 = ''170''"
  by code_simp

section \<open>Properties of the input stream\<close>

lemma extract_int_ok:
  assumes "extract_int old c = (v, c')" and "\<not> failbit c'"
  shows "good c \<and> INT_MIN \<le> v \<and> v \<le> INT_MAX \<and> 
         (\<exists>rest. spells (buf c) v rest \<and> c' = c\<lparr>buf := rest, eofbit := (rest = [])\<rparr>)"
proof -
  have g: "good c"
    using assms by (auto simp: extract_int_def split: if_splits)
  obtain x xs where d: "dropWhile isspace (buf c) = x # xs"
    using assms g by (cases "dropWhile isspace (buf c)") (auto simp: extract_int_def)
  define sgn where "sgn = (if x = CHR ''-'' \<or> x = CHR ''+'' then [x] else [])"
  define body where "body = (if x = CHR ''-'' \<or> x = CHR ''+'' then xs else x # xs)"
  define ds where "ds = takeWhile isdigit body"
  define rest where "rest = dropWhile isdigit body"
  define n where "n = (if x = CHR ''-'' then - int (digits_val ds) else int (digits_val ds))"
  have ex: "extract_int old c =
      (if ds = [] then (0, c\<lparr>buf := rest, eofbit := (rest = []), failbit := True\<rparr>)
       else if n > INT_MAX then (INT_MAX, c\<lparr>buf := rest, eofbit := (rest = []), failbit := True\<rparr>)
       else if n < INT_MIN then (INT_MIN, c\<lparr>buf := rest, eofbit := (rest = []), failbit := True\<rparr>)
       else (n, c\<lparr>buf := rest, eofbit := (rest = [])\<rparr>))"
    using g d by (simp add: extract_int_def Let_def sgn_def body_def ds_def rest_def n_def)
  from ex assms have ds: "ds \<noteq> []" and hi: "n \<le> INT_MAX" and lo: "INT_MIN \<le> n"
    by (auto split: if_splits)
  with ex assms have v: "v = n" and cnew: "c' = c\<lparr>buf := rest, eofbit := (rest = [])\<rparr>"
    by (auto split: if_splits)
  have "buf c = takeWhile isspace (buf c) @ x # xs"
    using d by (metis takeWhile_dropWhile_id)
  also have "x # xs = sgn @ body" by (simp add: sgn_def body_def)
  also have "body = ds @ rest" by (simp add: ds_def rest_def)
  finally have whole: "buf c = takeWhile isspace (buf c) @ sgn @ ds @ rest" .
  have ws: "\<forall>y \<in> set (takeWhile isspace (buf c)). isspace y"
    by (auto dest: set_takeWhileD)
  have dg: "\<forall>y \<in> set ds. isdigit y"
    by (auto simp: ds_def dest: set_takeWhileD)
  have sg: "sgn \<in> {[], ''+'', ''-''}" by (auto simp: sgn_def)
  have mx: "rest = [] \<or> \<not> isdigit (hd rest)"
    unfolding rest_def using hd_dropWhile [of isdigit body] by blast
  have "n = (if sgn = ''-'' then - int (digits_val ds) else int (digits_val ds))"
    by (auto simp: n_def sgn_def)
  with whole ws dg sg ds mx have "spells (buf c) n rest"
    unfolding spells_def by blast
  with g v cnew hi lo show ?thesis by blast
qed

lemma isdigit_not_isspace: "isdigit x \<Longrightarrow> \<not> isspace x"
  by (auto simp: isdigit_def isspace_def)

lemma isdigit_not_sign: "isdigit x \<Longrightarrow> x \<noteq> CHR ''-'' \<and> x \<noteq> CHR ''+''"
  by (auto simp: isdigit_def)

lemma sign_not_isspace: "\<not> isspace (CHR ''-'')" "\<not> isspace (CHR ''+'')"
  by (simp_all add: isspace_def)

lemma dropWhile_skip:
  "\<forall>y \<in> set ws. P y \<Longrightarrow> \<not> P x \<Longrightarrow> dropWhile P (ws @ x # t) = x # t"
  by (simp add: dropWhile_append2)

lemma takeWhile_run:
  "\<forall>y \<in> set ds. P y \<Longrightarrow> rest = [] \<or> \<not> P (hd rest) \<Longrightarrow> takeWhile P (ds @ rest) = ds"
  by (cases rest) (simp_all add: takeWhile_append2)

lemma dropWhile_run:
  "\<forall>y \<in> set ds. P y \<Longrightarrow> rest = [] \<or> \<not> P (hd rest) \<Longrightarrow> dropWhile P (ds @ rest) = rest"
  by (cases rest) (simp_all add: dropWhile_append2)

lemma extract_int_spells:
  assumes g: "good c" and sp: "spells (buf c) v rest" and lo: "INT_MIN \<le> v" and hi: "v \<le> INT_MAX"
  shows "extract_int old c = (v, c\<lparr>buf := rest, eofbit := (rest = [])\<rparr>)"
proof -
  from sp obtain ws sgn ds where
    whole: "buf c = ws @ sgn @ ds @ rest" and ws: "\<forall>x \<in> set ws. isspace x" and
    sg: "sgn \<in> {[], ''+'', ''-''}" and ne: "ds \<noteq> []" and dg: "\<forall>x \<in> set ds. isdigit x" and
    mx: "rest = [] \<or> \<not> isdigit (hd rest)" and
    v: "v = (if sgn = ''-'' then - int (digits_val ds) else int (digits_val ds))"
    unfolding spells_def by blast
  from ne obtain d ds' where ds: "ds = d # ds'" by (cases ds) auto
  with dg have d: "isdigit d" by simp
  have tk: "takeWhile isdigit (ds @ rest) = ds" and dr: "dropWhile isdigit (ds @ rest) = rest"
    using dg mx by (rule takeWhile_run, rule dropWhile_run)
  from sg consider "sgn = []" | "sgn = ''+''" | "sgn = ''-''" by auto
  then show ?thesis
  proof cases
    case 1
    have "dropWhile isspace (buf c) = d # (ds' @ rest)"
      using whole 1 ds ws isdigit_not_isspace [OF d] dropWhile_skip [of ws isspace d "ds' @ rest"] by simp
    moreover have "takeWhile isdigit (d # ds' @ rest) = ds" "dropWhile isdigit (d # ds' @ rest) = rest"
      using tk dr ds by simp_all
    ultimately show ?thesis
      using g v lo hi ne 1 isdigit_not_sign [OF d]
      by (simp add: extract_int_def Let_def)
  next
    case 2
    have "dropWhile isspace (buf c) = CHR ''+'' # (ds @ rest)"
      using whole 2 ws sign_not_isspace(2) dropWhile_skip [of ws isspace "CHR ''+''" "ds @ rest"] by simp
    then show ?thesis
      using g v lo hi ne 2 tk dr
      by (simp add: extract_int_def Let_def)
  next
    case 3
    have "dropWhile isspace (buf c) = CHR ''-'' # (ds @ rest)"
      using whole 3 ws sign_not_isspace(1) dropWhile_skip [of ws isspace "CHR ''-''" "ds @ rest"] by simp
    then show ?thesis
      using g v lo hi ne 3 tk dr
      by (simp add: extract_int_def Let_def)
  qed
qed

lemma extract_int_eof:
  assumes "buf c = []"
  shows "fst (extract_int old c) = old \<and> failbit (snd (extract_int old c)) \<and>
         buf (snd (extract_int old c)) = []"
  using assms by (simp add: extract_int_def)

lemma ignore_clear_eof:
  "buf c = [] \<Longrightarrow> ignore_line (clear c) = \<lparr>buf = [], failbit = False, eofbit = True\<rparr>"
  by (cases c) (simp add: ignore_line_def clear_def good_def)

section \<open>Properties of the validation loops\<close>

lemma number_body_Break:
  assumes "number_body n s = Break v s'"
  shows "(\<exists>rest. spells (buf (cin s)) v (newline # rest) \<and> buf (cin s') = newline # rest) \<and>
         0 \<le> v \<and> v \<le> 255 \<and> sent s' = sent s \<and> kills s' = kills s \<and> cerr s' = cerr s \<and>
         cout s' = cout s @ ''Enter message: '' \<and> good (cin s)"
proof -
  obtain v0 c1 where e: "extract_int n (cin s) = (v0, c1)"
    by (cases "extract_int n (cin s)")
  obtain nx c2 where p: "peek c1 = (nx, c2)"
    by (cases "peek c1")
  from assms e p have nf: "\<not> failbit c1" and nl: "nx = Some newline" and rng: "0 \<le> v0" "v0 \<le> 255"
    and v: "v = v0" and s': "s' = s\<lparr>cout := cout s @ ''Enter message: '', cin := c2\<rparr>"
    by (auto simp: number_body_def Let_def split: if_splits)
  from extract_int_ok [OF e nf] obtain rest where
    sp: "spells (buf (cin s)) v0 rest" and c1: "c1 = (cin s)\<lparr>buf := rest, eofbit := (rest = [])\<rparr>"
    and g: "good (cin s)"
    by blast
  from p nl have "buf c1 = newline # tl (buf c1) \<and> c2 = c1"
    by (auto simp: peek_def split: if_splits list.splits)
  with c1 have "rest = newline # tl rest" and "buf c2 = rest" by simp_all
  then have "spells (buf (cin s)) v (newline # tl rest) \<and> buf (cin s') = newline # tl rest"
    using sp v s' by simp
  then have "\<exists>r. spells (buf (cin s)) v (newline # r) \<and> buf (cin s') = newline # r" ..
  with v s' rng g show ?thesis by simp
qed

lemma number_body_Continue:
  assumes "number_body n s = Continue v s'"
  shows "number_loop n s = number_loop v s' \<and> sent s' = sent s \<and> kills s' = kills s \<and>
         cerr s' = cerr s \<and>
         (\<exists>msg \<in> set [''Invalid input. Please enter a valid number between 0 and 255.'',
                         ''Invalid input. Please enter a number between 0 and 255.'',
                         ''Invalid number. Please enter a number between 0 and 255.''].
            cout s' = cout s @ ''Enter message: '' @ msg @ [newline])"
proof -
  obtain v0 c1 where e: "extract_int n (cin s) = (v0, c1)"
    by (cases "extract_int n (cin s)")
  obtain nx c2 where p: "peek c1 = (nx, c2)"
    by (cases "peek c1")
  have "number_loop n s = number_loop v s'"
    by (subst number_loop.simps) (simp add: assms)
  moreover from assms e p have "sent s' = sent s \<and> kills s' = kills s \<and> cerr s' = cerr s"
    by (auto simp: number_body_def Let_def split: if_splits)
  moreover from assms e p have
    "cout s' = cout s @ ''Enter message: '' @ ''Invalid input. Please enter a valid number between 0 and 255.'' @ [newline] \<or>
     cout s' = cout s @ ''Enter message: '' @ ''Invalid input. Please enter a number between 0 and 255.'' @ [newline] \<or>
     cout s' = cout s @ ''Enter message: '' @ ''Invalid number. Please enter a number between 0 and 255.'' @ [newline]"
    by (auto simp: number_body_def Let_def split: if_splits)
  ultimately show ?thesis by auto
qed

lemma pid_body_Break:
  assumes "pid_body os p s = Break pid s'"
  shows "(\<exists>rest. spells (buf (cin s)) pid rest \<and> buf (cin s') = rest) \<and>
         0 < pid \<and> os (kills s) pid = None \<and> sent s' = sent s \<and> kills s' = Suc (kills s) \<and>
         cerr s' = cerr s \<and> cout s' = cout s @ ''Enter receiver PID: '' \<and>
         good (cin s) \<and> pid \<le> INT_MAX"
proof -
  obtain v0 c1 where e: "extract_int p (cin s) = (v0, c1)"
    by (cases "extract_int p (cin s)")
  from assms e have nf: "\<not> failbit c1" and pos: "0 < v0" and ok: "os (kills s) v0 = None"
    and v: "pid = v0"
    and s': "s' = s\<lparr>cout := cout s @ ''Enter receiver PID: '', cin := c1, kills := Suc (kills s)\<rparr>"
    by (auto simp: pid_body_def Let_def split: if_splits)
  from extract_int_ok [OF e nf] obtain rest where
    sp: "spells (buf (cin s)) v0 rest" and c1: "c1 = (cin s)\<lparr>buf := rest, eofbit := (rest = [])\<rparr>"
    and g: "good (cin s)" and mx: "v0 \<le> INT_MAX"
    by blast
  then have "spells (buf (cin s)) pid rest \<and> buf (cin s') = rest"
    using v s' by simp
  then have "\<exists>r. spells (buf (cin s)) pid r \<and> buf (cin s') = r" ..
  with v s' pos ok g mx show ?thesis by simp
qed

lemma pid_body_Continue:
  assumes "pid_body os p s = Continue pid s'"
  shows "pid_loop os p s = pid_loop os pid s' \<and> sent s' = sent s \<and> cerr s' = cerr s \<and>
         cout s' = cout s @ ''Enter receiver PID: '' @ ''Invalid or unavailable PID.'' @ [newline]"
proof -
  obtain v0 c1 where e: "extract_int p (cin s) = (v0, c1)"
    by (cases "extract_int p (cin s)")
  have "pid_loop os p s = pid_loop os pid s'"
    by (subst pid_loop.simps) (simp add: assms)
  moreover from assms e have "sent s' = sent s \<and> cerr s' = cerr s \<and>
      cout s' = cout s @ ''Enter receiver PID: '' @ ''Invalid or unavailable PID.'' @ [newline]"
    by (auto simp: pid_body_def Let_def split: if_splits)
  ultimately show ?thesis by simp
qed

lemma pid_loop_Some:
  "pid_loop os p s = Some r \<Longrightarrow>
   0 < fst r \<and> sent (snd r) = sent s \<and> cerr (snd r) = cerr s \<and>
   (\<exists>t < kills (snd r). os t (fst r) = None)"
proof (induction os p s r rule: pid_loop.raw_induct [rotated 1, consumes 1])
  case (1 loop os p s r)
  show ?case
  proof (cases "pid_body os p s")
    case (Continue pid s')
    with 1(2) have "loop os pid s' = Some r" by simp
    from 1(1) [OF this] pid_body_Continue [OF Continue] show ?thesis by simp
  next
    case (Break pid s')
    with 1(2) have r: "r = (pid, s')" by simp
    from pid_body_Break [OF Break] have "0 < pid" "os (kills s) pid = None" "sent s' = sent s"
      "kills s' = Suc (kills s)" "cerr s' = cerr s" by simp_all
    then show ?thesis using r by auto
  qed
qed

lemma number_loop_Some:
  "number_loop n s = Some r \<Longrightarrow>
   0 \<le> fst r \<and> fst r \<le> 255 \<and> sent (snd r) = sent s \<and> kills (snd r) = kills s \<and>
   cerr (snd r) = cerr s"
proof (induction n s r rule: number_loop.raw_induct [rotated 1, consumes 1])
  case (1 loop n s r)
  show ?case
  proof (cases "number_body n s")
    case (Continue v s')
    with 1(2) have "loop v s' = Some r" by simp
    from 1(1) [OF this] number_body_Continue [OF Continue] show ?thesis by simp
  next
    case (Break v s')
    with 1(2) have r: "r = (v, s')" by simp
    from number_body_Break [OF Break] show ?thesis using r by simp
  qed
qed

lemma pid_body_eof:
  assumes "buf (cin s) = []"
  shows "pid_body os p s =
         Continue p (s\<lparr>cin := \<lparr>buf = [], failbit = False, eofbit = True\<rparr>,
                       cout := cout s @ ''Enter receiver PID: '' @ ''Invalid or unavailable PID.'' @ [newline]\<rparr>)"
proof -
  obtain v c1 where e: "extract_int p (cin s) = (v, c1)"
    by (cases "extract_int p (cin s)")
  with extract_int_eof [OF assms, of p] have "v = p" "failbit c1" "buf c1 = []" by simp_all
  then show ?thesis
    using e by (simp add: pid_body_def ignore_clear_eof)
qed

lemma number_body_eof:
  assumes "buf (cin s) = []"
  shows "number_body n s =
         Continue n (s\<lparr>cin := \<lparr>buf = [], failbit = False, eofbit = True\<rparr>,
                       cout := cout s @ ''Enter message: '' @
                         ''Invalid input. Please enter a valid number between 0 and 255.'' @ [newline]\<rparr>)"
proof -
  obtain v c1 where e: "extract_int n (cin s) = (v, c1)"
    by (cases "extract_int n (cin s)")
  with extract_int_eof [OF assms, of n] have "v = n" "failbit c1" "buf c1 = []" by simp_all
  then show ?thesis
    using e by (simp add: number_body_def ignore_clear_eof)
qed

lemma pid_loop_eof:
  assumes "buf (cin s) = []"
  shows "pid_loop os p s = None"
proof (rule ccontr)
  assume "pid_loop os p s \<noteq> None"
  then obtain r where "pid_loop os p s = Some r" by auto
  then have "buf (cin s) \<noteq> []"
  proof (induction os p s r rule: pid_loop.raw_induct [rotated 1, consumes 1])
    case (1 loop os p s r)
    show ?case
    proof
      assume e: "buf (cin s) = []"
      let ?s' = "s\<lparr>cin := \<lparr>buf = [], failbit = False, eofbit = True\<rparr>,
                  cout := cout s @ ''Enter receiver PID: '' @ ''Invalid or unavailable PID.'' @ [newline]\<rparr>"
      from 1(2) have "loop os p ?s' = Some r"
        by (simp add: pid_body_eof [OF e])
      from 1(1) [OF this] show False by simp
    qed
  qed
  with assms show False by simp
qed

lemma number_loop_eof:
  assumes "buf (cin s) = []"
  shows "number_loop n s = None"
proof (rule ccontr)
  assume "number_loop n s \<noteq> None"
  then obtain r where "number_loop n s = Some r" by auto
  then have "buf (cin s) \<noteq> []"
  proof (induction n s r rule: number_loop.raw_induct [rotated 1, consumes 1])
    case (1 loop n s r)
    show ?case
    proof
      assume e: "buf (cin s) = []"
      let ?s' = "s\<lparr>cin := \<lparr>buf = [], failbit = False, eofbit = True\<rparr>,
                  cout := cout s @ ''Enter message: '' @
                         ''Invalid input. Please enter a valid number between 0 and 255.'' @ [newline]\<rparr>"
      from 1(2) have "loop n ?s' = Some r"
        by (simp add: number_body_eof [OF e])
      from 1(1) [OF this] show False by simp
    qed
  qed
  with assms show False by simp
qed

lemma pid_loop_retries:
  "pid_retries k os p s = Some (p', s') \<Longrightarrow> pid_loop os p s = pid_loop os p' s'"
proof (induction k arbitrary: p s)
  case 0
  then show ?case by simp
next
  case (Suc k)
  then obtain q t where b: "pid_body os p s = Continue q t" and r: "pid_retries k os q t = Some (p', s')"
    by (auto split: iteration.splits)
  from b have "pid_loop os p s = pid_loop os q t"
    by (subst pid_loop.simps) simp
  with Suc.IH [OF r] show ?case by simp
qed

lemma number_loop_retries:
  "number_retries k n s = Some (n', s') \<Longrightarrow> number_loop n s = number_loop n' s'"
proof (induction k arbitrary: n s)
  case 0
  then show ?case by simp
next
  case (Suc k)
  then obtain q t where b: "number_body n s = Continue q t" and r: "number_retries k q t = Some (n', s')"
    by (auto split: iteration.splits)
  from b have "number_loop n s = number_loop q t"
    by (subst number_loop.simps) simp
  with Suc.IH [OF r] show ?case by simp
qed

lemma pid_retries_append:
  "pid_retries k os p s = Some (p', s') \<Longrightarrow> pid_retries (k + m) os p s = pid_retries m os p' s'"
  by (induction k arbitrary: p s) (auto split: iteration.splits)

lemma number_retries_append:
  "number_retries k n s = Some (n', s') \<Longrightarrow> number_retries (k + m) n s = number_retries m n' s'"
  by (induction k arbitrary: n s) (auto split: iteration.splits)

lemma pid_retries_eof:
  assumes "buf (cin s) = []"
  shows "pid_retries (Suc m) os p s =
         Some (p, s\<lparr>cin := \<lparr>buf = [], failbit = False, eofbit = True\<rparr>,
                    cout := cout s @ concat (replicate (Suc m)
                      (''Enter receiver PID: '' @ ''Invalid or unavailable PID.'' @ [newline]))\<rparr>)"
  using assms
proof (induction m arbitrary: s)
  case 0
  then show ?case by (simp add: pid_body_eof)
next
  case (Suc m)
  let ?s' = "s\<lparr>cin := \<lparr>buf = [], failbit = False, eofbit = True\<rparr>,
                  cout := cout s @ ''Enter receiver PID: '' @ ''Invalid or unavailable PID.'' @ [newline]\<rparr>"
  have "pid_retries (Suc (Suc m)) os p s = pid_retries (Suc m) os p ?s'"
    by (simp add: pid_body_eof [OF Suc.prems])
  also have "\<dots> = Some (p, ?s'\<lparr>cin := \<lparr>buf = [], failbit = False, eofbit = True\<rparr>,
                    cout := cout ?s' @ concat (replicate (Suc m)
                      (''Enter receiver PID: '' @ ''Invalid or unavailable PID.'' @ [newline]))\<rparr>)"
    by (rule Suc.IH) simp
  finally show ?case by simp
qed

lemma number_retries_eof:
  assumes "buf (cin s) = []"
  shows "number_retries (Suc m) n s =
         Some (n, s\<lparr>cin := \<lparr>buf = [], failbit = False, eofbit = True\<rparr>,
                    cout := cout s @ concat (replicate (Suc m)
                      (''Enter message: '' @
                       ''Invalid input. Please enter a valid number between 0 and 255.'' @ [newline]))\<rparr>)"
  using assms
proof (induction m arbitrary: s)
  case 0
  then show ?case by (simp add: number_body_eof)
next
  case (Suc m)
  let ?s' = "s\<lparr>cin := \<lparr>buf = [], failbit = False, eofbit = True\<rparr>,
                  cout := cout s @ ''Enter message: '' @
                       ''Invalid input. Please enter a valid number between 0 and 255.'' @ [newline]\<rparr>"
  have "number_retries (Suc (Suc m)) n s = number_retries (Suc m) n ?s'"
    by (simp add: number_body_eof [OF Suc.prems])
  also have "\<dots> = Some (n, ?s'\<lparr>cin := \<lparr>buf = [], failbit = False, eofbit = True\<rparr>,
                    cout := cout ?s' @ concat (replicate (Suc m)
                      (''Enter message: '' @
                       ''Invalid input. Please enter a valid number between 0 and 255.'' @ [newline]))\<rparr>)"
    by (rule Suc.IH) simp
  finally show ?case by simp
qed

lemma pid_body_valid:
  assumes g: "good (cin s)" and sp: "spells (buf (cin s)) pid rest" and pos: "0 < pid"
    and hi: "pid \<le> INT_MAX" and ok: "os (kills s) pid = None"
  shows "pid_body os p s =
         Break pid (s\<lparr>cout := cout s @ ''Enter receiver PID: '',
                      cin := (cin s)\<lparr>buf := rest, eofbit := (rest = [])\<rparr>,
                      kills := Suc (kills s)\<rparr>)"
proof -
  have "INT_MIN \<le> pid" using pos by (simp add: INT_MIN_def)
  from extract_int_spells [OF g sp this hi, of p]
  have e: "extract_int p (cin s) = (pid, (cin s)\<lparr>buf := rest, eofbit := (rest = [])\<rparr>)" .
  have "\<not> failbit (cin s)" using g by (simp add: good_def)
  then show ?thesis
    using pos ok by (simp add: pid_body_def e)
qed

lemma number_body_valid:
  assumes g: "good (cin s)" and sp: "spells (buf (cin s)) v (newline # rest)" and lo: "0 \<le> v"
    and hi: "v \<le> 255"
  shows "number_body n s =
         Break v (s\<lparr>cout := cout s @ ''Enter message: '',
                    cin := (cin s)\<lparr>buf := newline # rest, eofbit := False\<rparr>\<rparr>)"
proof -
  have "INT_MIN \<le> v" "v \<le> INT_MAX" using lo hi by (simp_all add: INT_MIN_def INT_MAX_def)
  from extract_int_spells [OF g sp this, of n]
  have e: "extract_int n (cin s) = (v, (cin s)\<lparr>buf := newline # rest, eofbit := False\<rparr>)" by simp
  have f: "\<not> failbit (cin s)" using g by (simp add: good_def)
  then have p: "peek ((cin s)\<lparr>buf := newline # rest, eofbit := False\<rparr>) =
      (Some newline, (cin s)\<lparr>buf := newline # rest, eofbit := False\<rparr>)"
    by (simp add: peek_def good_def)
  show ?thesis
    using f lo hi by (simp add: number_body_def e p)
qed

lemma send_loop_cases:
  "(\<exists>j<8. \<exists>e. send_loop os pid v 7 s =
       Inl (1, s\<lparr>kills := kills s + j + 1,
                sent := sent s @ map (\<lambda>i. (pid, if bit v i then SIGUSR2 else SIGUSR1))
                                   (take j [7, 6, 5, 4, 3, 2, 1, 0]),
                cerr := cerr s @ ''Failed to send signal: '' @ strerror e @ [newline]\<rparr>)) \<or>
   send_loop os pid v 7 s =
       Inr (s\<lparr>kills := kills s + 8,
              sent := sent s @ map (\<lambda>i. (pid, if bit v i then SIGUSR2 else SIGUSR1))
                                 [7, 6, 5, 4, 3, 2, 1, 0]\<rparr>)"
proof (cases "\<exists>j<8. os (kills s + j) pid \<noteq> None")
  case True
  define j where "j = (LEAST j. j < 8 \<and> os (kills s + j) pid \<noteq> None)"
  from True have "j < 8 \<and> os (kills s + j) pid \<noteq> None"
    unfolding j_def by (rule LeastI_ex)
  then have j: "j < 8" and bad: "os (kills s + j) pid \<noteq> None" by simp_all
  then obtain e where e: "os (kills s + j) pid = Some e" by auto
  have before: "os (kills s + n) pid = None" if "n < j" for n
  proof (rule ccontr)
    assume "os (kills s + n) pid \<noteq> None"
    with that j have "n < 8 \<and> os (kills s + n) pid \<noteq> None" by simp
    then have "j \<le> n" unfolding j_def by (rule Least_le)
    with that show False by simp
  qed
  have "send_loop os pid v (int 8 - 1) s =
       Inl (1, s\<lparr>kills := kills s + j + 1,
                sent := sent s @ map (\<lambda>i. (pid, if bit v i then SIGUSR2 else SIGUSR1))
                                   (take j (rev [0..<8])),
                cerr := cerr s @ ''Failed to send signal: '' @ strerror e @ [newline]\<rparr>)"
    using j before e by (rule send_loop_fail)
  then have "send_loop os pid v 7 s =
       Inl (1, s\<lparr>kills := kills s + j + 1,
                sent := sent s @ map (\<lambda>i. (pid, if bit v i then SIGUSR2 else SIGUSR1))
                                   (take j [7, 6, 5, 4, 3, 2, 1, 0]),
                cerr := cerr s @ ''Failed to send signal: '' @ strerror e @ [newline]\<rparr>)"
    by (simp only: rev_upt_8) simp
  with j show ?thesis by blast
next
  case False
  then have "os (kills s + n) pid = None" if "n < 8" for n
    using that by blast
  then have "send_loop os pid v (int 8 - 1) s =
        Inr (s\<lparr>kills := kills s + 8,
               sent := sent s @ map (\<lambda>i. (pid, if bit v i then SIGUSR2 else SIGUSR1)) (rev [0..<8])\<rparr>)"
    by (rule send_loop_ok)
  then have "send_loop os pid v 7 s =
       Inr (s\<lparr>kills := kills s + 8,
              sent := sent s @ map (\<lambda>i. (pid, if bit v i then SIGUSR2 else SIGUSR1))
                                 [7, 6, 5, 4, 3, 2, 1, 0]\<rparr>)"
    by (simp only: rev_upt_8) simp
  then show ?thesis ..
qed

lemma sender_main_Some:
  assumes "sender_main os p n input = Some (code, sf)"
  shows "\<exists>pid v s1 s2 j.
           pid_loop os p (sender_start input) = Some (pid, s1) \<and>
           number_loop n s1 = Some (v, s2) \<and> sent s2 = [] \<and>
           0 < pid \<and> (\<exists>t < kills s1. os t pid = None) \<and> 0 \<le> v \<and> v \<le> 255 \<and> j \<le> 8 \<and>
           sent sf = map (\<lambda>i. (pid, if bit v i then SIGUSR2 else SIGUSR1))
                         (take j [7, 6, 5, 4, 3, 2, 1, 0])"
proof -
  from assms obtain pid s1 where p: "pid_loop os p (sender_start input) = Some (pid, s1)"
    by (auto simp: sender_main_def split: option.splits)
  with assms obtain v s2 where n: "number_loop n s1 = Some (v, s2)"
    by (auto simp: sender_main_def split: option.splits)
  from pid_loop_Some [OF p] have pos: "0 < pid" and s1: "sent s1 = []"
    and al: "\<exists>t < kills s1. os t pid = None"
    by (simp_all add: sender_start_def)
  from number_loop_Some [OF n] s1 have rng: "0 \<le> v" "v \<le> 255" and s2: "sent s2 = []"
    by simp_all
  from assms p n have fin: "(case send_loop os pid v 7 s2 of Inl e \<Rightarrow> Some e | Inr s3 \<Rightarrow> Some (0, s3)) = Some (code, sf)"
    by (simp add: sender_main_def)
  from send_loop_cases [of os pid v s2]
  have "\<exists>j\<le>8. sent sf = map (\<lambda>i. (pid, if bit v i then SIGUSR2 else SIGUSR1))
                         (take j [7, 6, 5, 4, 3, 2, 1, 0])"
  proof
    assume "\<exists>j<8. \<exists>e. send_loop os pid v 7 s2 =
       Inl (1, s2\<lparr>kills := kills s2 + j + 1,
                sent := sent s2 @ map (\<lambda>i. (pid, if bit v i then SIGUSR2 else SIGUSR1))
                                   (take j [7, 6, 5, 4, 3, 2, 1, 0]),
                cerr := cerr s2 @ ''Failed to send signal: '' @ strerror e @ [newline]\<rparr>)"
    then obtain j e where j: "j < 8" and l: "send_loop os pid v 7 s2 =
       Inl (1, s2\<lparr>kills := kills s2 + j + 1,
                sent := sent s2 @ map (\<lambda>i. (pid, if bit v i then SIGUSR2 else SIGUSR1))
                                   (take j [7, 6, 5, 4, 3, 2, 1, 0]),
                cerr := cerr s2 @ ''Failed to send signal: '' @ strerror e @ [newline]\<rparr>)"
      by blast
    from fin l s2 have "sent sf = map (\<lambda>i. (pid, if bit v i then SIGUSR2 else SIGUSR1))
                         (take j [7, 6, 5, 4, 3, 2, 1, 0])"
      by auto
    with j show ?thesis by (intro exI [of _ j]) simp
  next
    assume l: "send_loop os pid v 7 s2 =
       Inr (s2\<lparr>kills := kills s2 + 8,
              sent := sent s2 @ map (\<lambda>i. (pid, if bit v i then SIGUSR2 else SIGUSR1))
                                 [7, 6, 5, 4, 3, 2, 1, 0]\<rparr>)"
    from fin l s2 have "sent sf = map (\<lambda>i. (pid, if bit v i then SIGUSR2 else SIGUSR1))
                         (take 8 [7, 6, 5, 4, 3, 2, 1, 0])"
      by auto
    then show ?thesis by (intro exI [of _ 8]) simp
  qed
  with p n s2 pos al rng show ?thesis by blast
qed

lemma extract_int_length: "length (buf (snd (extract_int old c))) \<le> length (buf c)"
proof (cases "good c")
  case False
  then show ?thesis by (simp add: extract_int_def)
next
  case True
  show ?thesis
  proof (cases "dropWhile isspace (buf c)")
    case Nil
    with True show ?thesis by (simp add: extract_int_def del: dropWhile_eq_Nil_conv)
  next
    case (Cons x xs)
    have a: "length (x # xs) \<le> length (buf c)"
      using length_dropWhile_le [of isspace "buf c"] Cons by simp
    have b: "length (dropWhile isdigit xs) \<le> length xs" "length (dropWhile isdigit (x # xs)) \<le> length (x # xs)"
      by (rule length_dropWhile_le)+
    from True Cons a b show ?thesis
      by (auto simp: extract_int_def Let_def)
  qed
qed

lemma ignore_clear_shrinks:
  "buf (ignore_line (clear c)) = [] \<or> length (buf (ignore_line (clear c))) < length (buf c)"
proof (cases "dropWhile (\<lambda>x. x \<noteq> newline) (buf c)")
  case Nil
  then show ?thesis by (simp add: ignore_line_def clear_def good_def del: dropWhile_eq_Nil_conv)
next
  case (Cons x rest)
  have "length (x # rest) \<le> length (buf c)"
    using length_dropWhile_le [of "\<lambda>x. x \<noteq> newline" "buf c"] Cons by simp
  with Cons show ?thesis by (simp add: ignore_line_def clear_def good_def)
qed

lemma spells_shorter: "spells inp v rest \<Longrightarrow> length rest < length inp"
  by (auto simp: spells_def)

lemma pid_body_shrinks:
  assumes "pid_body os p s = Continue p' s'"
  shows "buf (cin s') = [] \<or> length (buf (cin s')) < length (buf (cin s))"
proof -
  obtain v c1 where e: "extract_int p (cin s) = (v, c1)"
    by (cases "extract_int p (cin s)")
  from assms e have "cin s' = ignore_line (clear c1)"
    by (auto simp: pid_body_def Let_def split: if_splits)
  moreover have "length (buf c1) \<le> length (buf (cin s))"
    using extract_int_length [of p "cin s"] e by simp
  ultimately show ?thesis
    using ignore_clear_shrinks [of c1] by auto
qed

lemma number_body_shrinks:
  assumes "number_body n s = Continue n' s'"
  shows "buf (cin s') = [] \<or> length (buf (cin s')) < length (buf (cin s))"
proof -
  obtain v c1 where e: "extract_int n (cin s) = (v, c1)"
    by (cases "extract_int n (cin s)")
  obtain nx c2 where p: "peek c1 = (nx, c2)"
    by (cases "peek c1")
  have le: "length (buf c1) \<le> length (buf (cin s))"
    using extract_int_length [of n "cin s"] e by simp
  have b2: "buf c2 = buf c1"
    using p by (auto simp: peek_def split: if_splits list.splits)
  from assms e p consider
      "cin s' = ignore_line (clear c1)" | "cin s' = ignore_line (clear c2)"
    | "\<not> failbit c1" "cin s' = c2"
    by (auto simp: number_body_def Let_def split: if_splits)
  then show ?thesis
  proof cases
    case 1
    with le ignore_clear_shrinks [of c1] show ?thesis by auto
  next
    case 2
    with le b2 ignore_clear_shrinks [of c2] show ?thesis by auto
  next
    case 3
    from extract_int_ok [OF e 3(1)] obtain rest where "spells (buf (cin s)) v rest"
      and "c1 = (cin s)\<lparr>buf := rest, eofbit := (rest = [])\<rparr>" by blast
    then have "length (buf c1) < length (buf (cin s))"
      using spells_shorter by simp
    with 3(2) b2 show ?thesis by simp
  qed
qed

lemma pid_loop_runs_out:
  "pid_loop os p s = None \<Longrightarrow>
   \<exists>k p' s'. pid_retries k os p s = Some (p', s') \<and> buf (cin s') = []"
proof (induction "length (buf (cin s))" arbitrary: p s rule: less_induct)
  case less
  show ?case
  proof (cases "buf (cin s) = []")
    case True
    then have "pid_retries 0 os p s = Some (p, s) \<and> buf (cin s) = []" by simp
    then show ?thesis by blast
  next
    case False
    show ?thesis
    proof (cases "pid_body os p s")
      case (Break q t)
      then have "pid_loop os p s = Some (q, t)"
        by (subst pid_loop.simps) simp
      with less.prems show ?thesis by simp
    next
      case (Continue q t)
      then have same: "pid_loop os p s = pid_loop os q t"
        by (subst pid_loop.simps) simp
      from pid_body_shrinks [OF Continue] show ?thesis
      proof
        assume "buf (cin t) = []"
        with Continue have "pid_retries (Suc 0) os p s = Some (q, t) \<and> buf (cin t) = []" by simp
        then show ?thesis by blast
      next
        assume "length (buf (cin t)) < length (buf (cin s))"
        moreover have "pid_loop os q t = None" using same less.prems by simp
        ultimately obtain k p' s' where
          "pid_retries k os q t = Some (p', s')" "buf (cin s') = []"
          using less.hyps [of t q] by blast
        with Continue have "pid_retries (Suc k) os p s = Some (p', s') \<and> buf (cin s') = []" by simp
        then show ?thesis by blast
      qed
    qed
  qed
qed

lemma number_loop_runs_out:
  "number_loop n s = None \<Longrightarrow>
   \<exists>k n' s'. number_retries k n s = Some (n', s') \<and> buf (cin s') = []"
proof (induction "length (buf (cin s))" arbitrary: n s rule: less_induct)
  case less
  show ?case
  proof (cases "buf (cin s) = []")
    case True
    then have "number_retries 0 n s = Some (n, s) \<and> buf (cin s) = []" by simp
    then show ?thesis by blast
  next
    case False
    show ?thesis
    proof (cases "number_body n s")
      case (Break q t)
      then have "number_loop n s = Some (q, t)"
        by (subst number_loop.simps) simp
      with less.prems show ?thesis by simp
    next
      case (Continue q t)
      then have same: "number_loop n s = number_loop q t"
        by (subst number_loop.simps) simp
      from number_body_shrinks [OF Continue] show ?thesis
      proof
        assume "buf (cin t) = []"
        with Continue have "number_retries (Suc 0) n s = Some (q, t) \<and> buf (cin t) = []" by simp
        then show ?thesis by blast
      next
        assume "length (buf (cin t)) < length (buf (cin s))"
        moreover have "number_loop q t = None" using same less.prems by simp
        ultimately obtain k n' s' where
          "number_retries k q t = Some (n', s')" "buf (cin s') = []"
          using less.hyps [of t q] by blast
        with Continue have "number_retries (Suc k) n s = Some (n', s') \<and> buf (cin s') = []" by simp
        then show ?thesis by blast
      qed
    qed
  qed
qed

section \<open>Properties of the delivery of signals\<close>

lemma exec_rank: "exec f g = Next f' g' \<Longrightarrow> rank (f_pc f') < rank (f_pc f)"
  by (cases "f_pc f") (auto simp: exec_def)

lemma finish_start:
  "finish \<lparr>f_sig = sig, f_pc = Load_result, f_reg = r, f_saved = m\<rparr> g = handle_sigusr sig g"
  by (cases sig) (simp_all add: finish.simps [of "\<lparr>f_sig = _, f_pc = _, f_reg = _, f_saved = _\<rparr>"] exec_def handle_sigusr_def Let_def)

lemma in_both: "sig \<in> both"
  by (cases sig) (simp_all add: both_def)

lemma serial_ready: "serial mask0 pid [] (receiver_ready sa0 mask0 pid)"
  by (simp add: serial_def receiver_ready_def sigaddset_def sigemptyset_def both_def
      receive_Nil receiver_main_def Let_def insert_commute)

lemma serial_step:
  assumes inv: "serial mask0 pid ds c" and st: "step ev c = Some c'"
  shows "serial mask0 pid (ds @ delivered [ev]) c'"
proof -
  from st have alive: "ended c = None"
    by (auto simp: step_def split: if_splits)
  from inv have dsp: "\<forall>sig. disp c sig = SIG_DFL \<or> (\<exists>sa. disp c sig = Caught sa \<and> sa_mask sa = both)"
    by (simp add: serial_def)
  show ?thesis
  proof (cases ev)
    case (Arrive sig)
    with st alive have "c' = c\<lparr>pending := insert sig (pending c)\<rparr>"
      by (simp add: step_def)
    with inv Arrive show ?thesis
      by (simp add: serial_def)
  next
    case (Deliver sig)
    with st alive have en: "sig \<in> pending c" "sig \<notin> blocked c"
      by (auto simp: step_def split: if_splits)
    have idle: "frames c = []"
    proof (cases "frames c")
      case Nil
      then show ?thesis .
    next
      case (Cons f fs)
      with inv alive have "both \<subseteq> blocked c" by (simp add: serial_def)
      with en(2) in_both [of sig] show ?thesis by blast
    qed
    with inv alive have bl: "blocked c = mask0"
      and rc: "receive (receiver_main pid) ds = Running (globals c)"
      by (simp_all add: serial_def)
    show ?thesis
    proof (cases "disp c sig")
      case SIG_DFL
      with st alive en Deliver have "c' = c\<lparr>pending := pending c - {sig}, ended := Some (Killed_by sig)\<rparr>"
        by (simp add: step_def)
      with dsp idle show ?thesis by (simp add: serial_def)
    next
      case (Caught sa)
      with dsp have m: "sa_mask sa = both" by (metis disposition.distinct(1) disposition.inject)
      let ?f = "\<lparr>f_sig = sig, f_pc = Load_result, f_reg = 0, f_saved = blocked c\<rparr>"
      from st alive en Deliver Caught idle have c': "c' = c\<lparr>pending := pending c - {sig},
                            frames := [?f],
                            blocked := blocked c \<union> sa_mask sa \<union>
                                       (if SA_NODEFER \<in> sa_flags sa then {} else {sig}),
                            disp := (if SA_RESETHAND \<in> sa_flags sa then (disp c)(sig := SIG_DFL)
                                     else disp c)\<rparr>"
        by (simp add: step_def)
      have "receive (receiver_main pid) (ds @ [sig]) = finish ?f (globals c)"
        by (simp add: receive_snoc rc finish_start)
      moreover have "\<forall>s. disp c' s = SIG_DFL \<or> (\<exists>sa. disp c' s = Caught sa \<and> sa_mask sa = both)"
        using dsp by (simp add: c')
      moreover have "both \<subseteq> blocked c'"
        using m by (auto simp: c')
      ultimately show ?thesis
        using alive bl Deliver by (simp add: serial_def) (simp add: c')
    qed
  next
    case Run
    with st alive obtain f fs where fr: "frames c = f # fs"
      by (cases "frames c") (auto simp: step_def)
    with inv alive have fs: "fs = []" and sv: "f_saved f = mask0" and bb: "both \<subseteq> blocked c"
      and rc: "receive (receiver_main pid) ds = finish f (globals c)"
      by (simp_all add: serial_def)
    show ?thesis
    proof (cases "exec f (globals c)")
      case (Next f' g')
      with st alive Run fr have c': "c' = c\<lparr>frames := f' # fs, globals := g'\<rparr>"
        by (simp add: step_def)
      have sv': "f_saved f' = f_saved f"
        using Next by (cases "f_pc f") (auto simp: exec_def)
      have "finish f (globals c) = finish f' g'"
        by (subst finish.simps) (simp add: Next)
      with rc sv sv' fs bb dsp alive Run show ?thesis
        by (simp add: serial_def c')
    next
      case Returns
      with st alive Run fr have c': "c' = c\<lparr>frames := fs, blocked := f_saved f\<rparr>"
        by (simp add: step_def)
      have "finish f (globals c) = Running (globals c)"
        by (subst finish.simps) (simp add: Returns)
      with rc sv fs dsp alive Run show ?thesis
        by (simp add: serial_def c')
    next
      case (Exits code g')
      with st alive Run fr have c': "c' = c\<lparr>globals := g', ended := Some (Exited_with code)\<rparr>"
        by (simp add: step_def)
      have "finish f (globals c) = Exited code g'"
        by (subst finish.simps) (simp add: Exits)
      with rc dsp Run fr fs show ?thesis
        by (simp add: serial_def c')
    qed
  qed
qed

lemma delivered_append: "delivered (xs @ ys) = delivered xs @ delivered ys"
  by (induction xs rule: delivered.induct) simp_all

lemma serial_run:
  "serial mask0 pid ds c \<Longrightarrow> run evs c = Some c' \<Longrightarrow> serial mask0 pid (ds @ delivered evs) c'"
proof (induction evs arbitrary: ds c)
  case Nil
  then show ?case by simp
next
  case (Cons ev evs)
  from Cons.prems(2) obtain c1 where s: "step ev c = Some c1" and r: "run evs c1 = Some c'"
    by (auto split: option.splits)
  from serial_step [OF Cons.prems(1) s] have "serial mask0 pid (ds @ delivered [ev]) c1" .
  from Cons.IH [OF this r] have "serial mask0 pid ((ds @ delivered [ev]) @ delivered evs) c'" .
  moreover have "delivered (ev # evs) = delivered [ev] @ delivered evs"
    using delivered_append [of "[ev]" evs] by simp
  ultimately show ?case by simp
qed

lemma pending_kept:
  "step ev c = Some c' \<Longrightarrow> sig \<in> pending c \<Longrightarrow> ev \<noteq> Deliver sig \<Longrightarrow> sig \<in> pending c'"
  by (cases ev)
     (auto simp: step_def split: if_splits list.splits micro.splits disposition.splits)

lemma handler_completes:
  "ended c = None \<Longrightarrow> frames c = f # fs \<Longrightarrow>
   \<exists>k\<le>Suc (rank (f_pc f)). \<exists>c'. run (replicate k Run) c = Some c' \<and>
      (ended c' \<noteq> None \<or> frames c' = fs)"
proof (induction "rank (f_pc f)" arbitrary: f c rule: less_induct)
  case less
  show ?case
  proof (cases "exec f (globals c)")
    case (Next f' g')
    let ?c1 = "c\<lparr>frames := f' # fs, globals := g'\<rparr>"
    have s: "step Run c = Some ?c1"
      using less.prems Next by (simp add: step_def)
    have r: "rank (f_pc f') < rank (f_pc f)" using Next by (rule exec_rank)
    have "ended ?c1 = None" "frames ?c1 = f' # fs" using less.prems by simp_all
    from less.hyps [OF r this] obtain k c' where k: "k \<le> Suc (rank (f_pc f'))"
      and run: "run (replicate k Run) ?c1 = Some c'" and fin: "ended c' \<noteq> None \<or> frames c' = fs"
      by blast
    have "run (replicate (Suc k) Run) c = Some c'"
      using s run by simp
    moreover have "Suc k \<le> Suc (rank (f_pc f))" using k r by simp
    ultimately show ?thesis using fin by blast
  next
    case Returns
    have "step Run c = Some (c\<lparr>frames := fs, blocked := f_saved f\<rparr>)"
      using less.prems Returns by (simp add: step_def)
    then have "run (replicate (Suc 0) Run) c = Some (c\<lparr>frames := fs, blocked := f_saved f\<rparr>)"
      by simp
    moreover have "frames (c\<lparr>frames := fs, blocked := f_saved f\<rparr>) = fs" by simp
    ultimately show ?thesis by (intro exI [of _ "Suc 0"]) auto
  next
    case (Exits code g')
    have "step Run c = Some (c\<lparr>globals := g', ended := Some (Exited_with code)\<rparr>)"
      using less.prems Exits by (simp add: step_def)
    then have "run (replicate (Suc 0) Run) c = Some (c\<lparr>globals := g', ended := Some (Exited_with code)\<rparr>)"
      by simp
    then show ?thesis by (intro exI [of _ "Suc 0"]) auto
  qed
qed

text \<open>
  With \<^verbatim>\<open>SA_RESETHAND\<close> absent from the flags of the installed action, no delivery changes
  an action, so no delivery finds the default one: the process is never killed.
\<close>

lemma run_append:
  "run (xs @ ys) c = (case run xs c of None \<Rightarrow> None | Some c' \<Rightarrow> run ys c')"
  by (induction xs arbitrary: c) (simp_all split: option.splits)

lemma step_keeps_action:
  assumes "SA_RESETHAND \<notin> sa_flags sa" and "\<forall>sig. disp c sig = Caught sa"
    and "step ev c = Some c'"
  shows "(\<forall>sig. disp c' sig = Caught sa) \<and> (\<forall>sig. ended c' \<noteq> Some (Killed_by sig))"
proof (cases ev)
  case (Arrive sig)
  with assms show ?thesis by (auto simp: step_def split: if_splits)
next
  case (Deliver sig)
  with assms show ?thesis by (auto simp: step_def split: if_splits)
next
  case Run
  with assms show ?thesis
    by (auto simp: step_def split: if_splits list.splits micro.splits)
qed

lemma run_keeps_action:
  assumes "SA_RESETHAND \<notin> sa_flags sa"
  shows "\<forall>sig. disp c sig = Caught sa \<Longrightarrow> \<forall>sig. ended c \<noteq> Some (Killed_by sig) \<Longrightarrow>
         run evs c = Some c' \<Longrightarrow>
         (\<forall>sig. disp c' sig = Caught sa) \<and> (\<forall>sig. ended c' \<noteq> Some (Killed_by sig))"
proof (induction evs arbitrary: c)
  case Nil
  then show ?case by simp
next
  case (Cons ev evs)
  from Cons.prems(3) obtain c1 where s: "step ev c = Some c1" and r: "run evs c1 = Some c'"
    by (auto split: option.splits)
  from step_keeps_action [OF assms Cons.prems(1) s]
  have "\<forall>sig. disp c1 sig = Caught sa" and "\<forall>sig. ended c1 \<noteq> Some (Killed_by sig)" by simp_all
  from Cons.IH [OF this r] show ?case .
qed

lemma ready_action:
  "disp (receiver_ready sa0 mask0 pid) sig = Caught (sa0\<lparr>sa_mask := {SIGUSR1, SIGUSR2}\<rparr>)"
  by (cases sig)
     (simp_all add: receiver_ready_def sigaddset_def sigemptyset_def Let_def insert_commute)

lemma never_killed:
  assumes "SA_RESETHAND \<notin> sa_flags sa0" and "run evs (receiver_ready sa0 mask0 pid) = Some c"
  shows "(\<forall>sig. disp c sig = Caught (sa0\<lparr>sa_mask := {SIGUSR1, SIGUSR2}\<rparr>)) \<and>
         (\<forall>sig. ended c \<noteq> Some (Killed_by sig))"
proof (rule run_keeps_action [OF _ _ _ assms(2)])
  show "SA_RESETHAND \<notin> sa_flags (sa0\<lparr>sa_mask := {SIGUSR1, SIGUSR2}\<rparr>)"
    using assms(1) by simp
  show "\<forall>sig. disp (receiver_ready sa0 mask0 pid) sig = Caught (sa0\<lparr>sa_mask := {SIGUSR1, SIGUSR2}\<rparr>)"
    by (simp add: ready_action)
  show "\<forall>sig. ended (receiver_ready sa0 mask0 pid) \<noteq> Some (Killed_by sig)"
    by (simp add: receiver_ready_def Let_def)
qed

lemma runs_keep_pending:
  "run (replicate k Run) c = Some c' \<Longrightarrow> sig \<in> pending c \<Longrightarrow> sig \<in> pending c'"
proof (induction k arbitrary: c)
  case 0
  then show ?case by simp
next
  case (Suc k)
  from Suc.prems(1) obtain c1 where s: "step Run c = Some c1" and r: "run (replicate k Run) c1 = Some c'"
    by (auto split: option.splits)
  from pending_kept [OF s Suc.prems(2)] have "sig \<in> pending c1" by simp
  from Suc.IH [OF r this] show ?case .
qed

lemma delivered_runs: "delivered (replicate k Run) = []"
  by (induction k) simp_all

section \<open>The claims about the transmission\<close>

text \<open>
  Claim C2 (most significant bit first).  For every value from 0 to 255, when the eight
  calls of \<^verbatim>\<open>kill\<close> succeed, the loop of \<^verbatim>\<open>main\<close> makes exactly eight calls and delivers
  exactly eight signals to the receiver, one per bit from bit 7 down to bit 0, in that
  order: \<^verbatim>\<open>SIGUSR1\<close> for a bit that is 0 and \<^verbatim>\<open>SIGUSR2\<close> for a bit that is 1.
\<close>

theorem msb_first_emission:
  assumes "0 \<le> v" and "v \<le> 255" and "\<forall>n<8. os (kills s + n) pid = None"
  shows "send_loop os pid v 7 s =
         Inr (s\<lparr>kills := kills s + 8,
                sent := sent s @ map (\<lambda>i. (pid, if bit v i then SIGUSR2 else SIGUSR1))
                                   [7, 6, 5, 4, 3, 2, 1, 0]\<rparr>)"
proof -
  have "send_loop os pid v (int 8 - 1) s =
        Inr (s\<lparr>kills := kills s + 8,
               sent := sent s @ map (\<lambda>i. (pid, if bit v i then SIGUSR2 else SIGUSR1)) (rev [0..<8])\<rparr>)"
    using assms(3) by (intro send_loop_ok) simp
  then show ?thesis by (simp only: rev_upt_8) simp
qed

text \<open>
  The value \<^verbatim>\<open>0b10110010\<close> (178) is sent as \<^verbatim>\<open>SIGUSR2, SIGUSR1, SIGUSR2, SIGUSR2, SIGUSR1,
  SIGUSR1, SIGUSR2, SIGUSR1\<close>.
\<close>

theorem msb_first_emission_witness:
  "send_loop (\<lambda>n p. None) 4242 178 7 (sender_start []) =
   Inr \<lparr>cin = \<lparr>buf = [], failbit = False, eofbit = False\<rparr>, cout = [], cerr = [], kills = 8,
        sent = [(4242, SIGUSR2), (4242, SIGUSR1), (4242, SIGUSR2), (4242, SIGUSR2),
                (4242, SIGUSR1), (4242, SIGUSR1), (4242, SIGUSR2), (4242, SIGUSR1)]\<rparr>"
  using msb_first_emission [of 178 "\<lambda>n p. None" "sender_start []" 4242]
  by (simp add: sender_start_def)

text \<open>
  Claim C1 (round trip).  For every value \<open>v\<close> from 0 to 255, when the eight calls of
  \<^verbatim>\<open>kill\<close> succeed the loop returns, and a receiver that starts fresh and handles the
  signals the loop delivered, each once and in the order sent, prints \<^verbatim>\<open>Received v\<close> and
  exits with status 0.
\<close>

theorem round_trip:
  assumes "0 \<le> v" and "v \<le> 255" and "\<forall>n<8. os (kills s + n) pid = None"
  shows "case send_loop os pid v 7 s of
           Inl e \<Rightarrow> False
         | Inr s' \<Rightarrow>
             receive (receiver_main pid) (map snd (drop (length (sent s)) (sent s'))) =
             Exited 0 \<lparr>bit_count = 8, result = word_of_int v,
                       r_cout = ''My PID is '' @ show_int pid @ [newline] @
                                ''Received '' @ show_int v @ [newline]\<rparr>"
proof -
  let ?syms = "map (\<lambda>i. if bit v i then SIGUSR2 else SIGUSR1) (rev [0..<8])"
  have loop: "send_loop os pid v (int 8 - 1) s =
        Inr (s\<lparr>kills := kills s + 8,
               sent := sent s @ map (\<lambda>i. (pid, if bit v i then SIGUSR2 else SIGUSR1)) (rev [0..<8])\<rparr>)"
    using assms(3) by (intro send_loop_ok) simp
  have "v mod 2 ^ 8 = v" using assms(1,2) by simp
  then have val: "int (bits_val ?syms) = v"
    using bits_val_symbols [OF assms(1), of 8] assms(1) by simp
  have "receive (receiver_main pid) ?syms =
        Exited 0 \<lparr>bit_count = 8, result = of_nat (bits_val ?syms),
                  r_cout = ''My PID is '' @ show_int pid @ [newline] @
                           ''Received '' @ show_int (int (bits_val ?syms)) @ [newline]\<rparr>"
    by (intro receive_eight) simp
  also have "(of_nat (bits_val ?syms) :: 32 word) = word_of_int (int (bits_val ?syms))"
    by simp
  finally have "receive (receiver_main pid) ?syms =
        Exited 0 \<lparr>bit_count = 8, result = word_of_int v,
                  r_cout = ''My PID is '' @ show_int pid @ [newline] @
                           ''Received '' @ show_int v @ [newline]\<rparr>"
    by (simp only: val)
  moreover have "map snd (map (\<lambda>i. (pid, if bit v i then SIGUSR2 else SIGUSR1)) (rev [0..<8])) = ?syms"
    by (simp add: comp_def)
  ultimately show ?thesis
    using loop by (simp del: upt_Suc rev_rev_ident add: comp_def)
qed

text \<open>The two boundary values: 0 is reported as \<^verbatim>\<open>Received 0\<close> and 255 as \<^verbatim>\<open>Received 255\<close>.\<close>

theorem round_trip_witness:
  "(case send_loop (\<lambda>n p. None) 77 0 7 (sender_start []) of
      Inl e \<Rightarrow> False
    | Inr s' \<Rightarrow>
        receive (receiver_main 77) (map snd (drop (length (sent (sender_start []))) (sent s'))) =
        Exited 0 \<lparr>bit_count = 8, result = 0,
                  r_cout = ''My PID is 77'' @ [newline] @ ''Received 0'' @ [newline]\<rparr>) \<and>
   (case send_loop (\<lambda>n p. None) 77 255 7 (sender_start []) of
      Inl e \<Rightarrow> False
    | Inr s' \<Rightarrow>
        receive (receiver_main 77) (map snd (drop (length (sent (sender_start []))) (sent s'))) =
        Exited 0 \<lparr>bit_count = 8, result = 255,
                  r_cout = ''My PID is 77'' @ [newline] @ ''Received 255'' @ [newline]\<rparr>)"
  using round_trip [of 0 "\<lambda>n p. None" "sender_start []" 77]
        round_trip [of 255 "\<lambda>n p. None" "sender_start []" 77]
  by (simp add: show_int_0 show_int_255 show_int_77 split: sum.splits)

text \<open>
  Claim C7 (a delivery failure aborts the transmission).  If the first \<open>j\<close> calls of
  \<^verbatim>\<open>kill\<close> in the loop succeed and the next one, for one of the eight symbols, returns -1,
  the sender writes the \<^verbatim>\<open>perror\<close> line and exits with status 1 at once: exactly the
  first \<open>j\<close> symbols were delivered, \<^verbatim>\<open>kill\<close> is not called again, and nothing is retried.
  The second part is the same for \<^verbatim>\<open>main\<close> as a whole, once the two validation loops have
  accepted the process id and the value.
\<close>

theorem delivery_failure_aborts:
  assumes "j < 8" and "\<forall>n<j. os (kills s + n) pid = None" and "os (kills s + j) pid = Some e"
  shows "send_loop os pid v 7 s =
           Inl (1, s\<lparr>kills := kills s + j + 1,
                    sent := sent s @ map (\<lambda>i. (pid, if bit v i then SIGUSR2 else SIGUSR1))
                                       (take j [7, 6, 5, 4, 3, 2, 1, 0]),
                    cerr := cerr s @ ''Failed to send signal: '' @ strerror e @ [newline]\<rparr>) \<and>
         (pid_loop os pid0 (sender_start input) = Some (pid, s1) \<and> number_loop number0 s1 = Some (v, s) \<longrightarrow>
          sender_main os pid0 number0 input =
           Some (1, s\<lparr>kills := kills s + j + 1,
                    sent := sent s @ map (\<lambda>i. (pid, if bit v i then SIGUSR2 else SIGUSR1))
                                       (take j [7, 6, 5, 4, 3, 2, 1, 0]),
                    cerr := cerr s @ ''Failed to send signal: '' @ strerror e @ [newline]\<rparr>))"
proof -
  have "send_loop os pid v (int 8 - 1) s =
           Inl (1, s\<lparr>kills := kills s + j + 1,
                    sent := sent s @ map (\<lambda>i. (pid, if bit v i then SIGUSR2 else SIGUSR1))
                                       (take j (rev [0..<8])),
                    cerr := cerr s @ ''Failed to send signal: '' @ strerror e @ [newline]\<rparr>)"
    using assms by (intro send_loop_fail) simp_all
  then have loop: "send_loop os pid v 7 s =
           Inl (1, s\<lparr>kills := kills s + j + 1,
                    sent := sent s @ map (\<lambda>i. (pid, if bit v i then SIGUSR2 else SIGUSR1))
                                       (take j [7, 6, 5, 4, 3, 2, 1, 0]),
                    cerr := cerr s @ ''Failed to send signal: '' @ strerror e @ [newline]\<rparr>)"
    by (simp only: rev_upt_8) simp
  then show ?thesis
    by (simp add: sender_main_def)
qed

theorem delivery_failure_aborts_witness:
  "send_loop (\<lambda>n p. if n = 4 then Some ESRCH else None) 4242 169 7
     \<lparr>cin = \<lparr>buf = [newline], failbit = False, eofbit = False\<rparr>,
      cout = ''Enter receiver PID: Enter message: '', cerr = [], kills = 1, sent = []\<rparr> =
   Inl (1, \<lparr>cin = \<lparr>buf = [newline], failbit = False, eofbit = False\<rparr>,
            cout = ''Enter receiver PID: Enter message: '',
            cerr = ''Failed to send signal: No such process'' @ [newline], kills = 5,
            sent = [(4242, SIGUSR2), (4242, SIGUSR1), (4242, SIGUSR2)]\<rparr>) \<and>
   sender_main (\<lambda>n p. if n = 4 then Some ESRCH else None) 0 0
     (''4242'' @ [newline] @ ''169'' @ [newline]) =
   Some (1, \<lparr>cin = \<lparr>buf = [newline], failbit = False, eofbit = False\<rparr>,
            cout = ''Enter receiver PID: Enter message: '',
            cerr = ''Failed to send signal: No such process'' @ [newline], kills = 5,
            sent = [(4242, SIGUSR2), (4242, SIGUSR1), (4242, SIGUSR2)]\<rparr>)"
proof -
  let ?os = "\<lambda>(n::nat) (p::int). if n = 4 then Some ESRCH else None"
  let ?s = "\<lparr>cin = \<lparr>buf = [newline], failbit = False, eofbit = False\<rparr>,
      cout = ''Enter receiver PID: Enter message: '', cerr = [], kills = 1, sent = []\<rparr>"
  let ?s1 = "\<lparr>cin = \<lparr>buf = [newline] @ ''169'' @ [newline], failbit = False, eofbit = False\<rparr>,
      cout = ''Enter receiver PID: '', cerr = [], kills = 1, sent = []\<rparr>"
  have p: "pid_loop ?os 0 (sender_start (''4242'' @ [newline] @ ''169'' @ [newline])) = Some (4242, ?s1)"
    by code_simp
  have n: "number_loop 0 ?s1 = Some (169, ?s)"
    by code_simp
  have j: "(3::nat) < 8" by simp
  have ok: "\<forall>n<3. ?os (kills ?s + n) 4242 = None" by simp
  have bad: "?os (kills ?s + 3) 4242 = Some ESRCH" by simp
  show ?thesis
    using delivery_failure_aborts [OF j ok bad, where v = 169 and ?pid0.0 = 0 and ?number0.0 = 0
        and input = "''4242'' @ [newline] @ ''169'' @ [newline]" and ?s1.0 = ?s1] p n
    by simp
qed

section \<open>The claims about the receiver\<close>

text \<open>
  Claim C3 (accumulator prefix invariant).  The invariant holds in the initial state of
  the globals.  After every sequence of \<open>k < 8\<close> symbols handled by a fresh receiver the
  process is still running and the invariant holds for the symbols handled: \<open>bit_count\<close>
  is \<open>k\<close>, the low \<open>k\<close> bits of \<open>result\<close> are the symbols in most-significant-first order,
  the higher bits are zero, and so \<open>0 \<le> result < 2 ^ k\<close>.  Every run of the handler from
  a state that satisfies the invariant for fewer than 8 symbols leaves a state that
  satisfies it for the symbols with the new one appended; the handler returns when
  that makes fewer than 8 symbols, and exits with status 0 on the eighth.
\<close>

theorem accumulator_prefix_invariant:
  "prefix_inv [] \<lparr>bit_count = 0, result = 0, r_cout = out\<rparr> \<and>
   (length sigs < 8 \<longrightarrow>
      (case receive (receiver_main pid) sigs of
         Running s \<Rightarrow> prefix_inv sigs s \<and> 0 \<le> sint (result s) \<and> sint (result s) < 2 ^ length sigs
       | Exited c s \<Rightarrow> False)) \<and>
   (length sigs < 8 \<and> prefix_inv sigs s \<longrightarrow>
      (case handle_sigusr x s of
         Running s' \<Rightarrow> length sigs < 7 \<and> prefix_inv (sigs @ [x]) s'
       | Exited c s' \<Rightarrow> length sigs = 7 \<and> c = 0 \<and> prefix_inv (sigs @ [x]) s'))"
proof (intro conjI impI)
  show "prefix_inv [] \<lparr>bit_count = 0, result = 0, r_cout = out\<rparr>"
    by (simp add: prefix_inv_def)
next
  assume len: "length sigs < 8"
  have b: "int (bits_val sigs) < 2 ^ length sigs"
    using bits_val_bound [of sigs] by (metis of_nat_less_iff of_nat_numeral of_nat_power)
  from len have "prefix_inv sigs \<lparr>bit_count = of_nat (length sigs), result = of_nat (bits_val sigs),
       r_cout = ''My PID is '' @ show_int pid @ [newline]\<rparr>"
    by (simp add: prefix_inv_iff)
  with len b show "case receive (receiver_main pid) sigs of
         Running s \<Rightarrow> prefix_inv sigs s \<and> 0 \<le> sint (result s) \<and> sint (result s) < 2 ^ length sigs
       | Exited c s \<Rightarrow> False"
    by (simp add: receive_prefix sint_bits_val)
next
  assume a: "length sigs < 8 \<and> prefix_inv sigs s"
  then have len: "length sigs < 8" and inv: "prefix_inv sigs s" by simp_all
  from len inv have s: "s = \<lparr>bit_count = of_nat (length sigs), result = of_nat (bits_val sigs), r_cout = r_cout s\<rparr>"
    by (simp add: prefix_inv_iff)
  show "case handle_sigusr x s of
         Running s' \<Rightarrow> length sigs < 7 \<and> prefix_inv (sigs @ [x]) s'
       | Exited c s' \<Rightarrow> length sigs = 7 \<and> c = 0 \<and> prefix_inv (sigs @ [x]) s'"
  proof (cases "length sigs < 7")
    case True
    have "handle_sigusr x s = Running \<lparr>bit_count = of_nat (Suc (length sigs)),
        result = of_nat (2 * bits_val sigs + bit_of x), r_cout = r_cout s\<rparr>"
      by (subst s) (rule handle_sigusr_step [OF True])
    with True show ?thesis by (simp add: prefix_inv_iff bits_val_snoc)
  next
    case False
    with len have l7: "length sigs = 7" by simp
    have "bits_val sigs < 2 ^ length sigs" by (rule bits_val_bound)
    with l7 have "bits_val sigs < 128" by simp
    then have "handle_sigusr x \<lparr>bit_count = 7, result = of_nat (bits_val sigs), r_cout = r_cout s\<rparr> =
       Exited 0 \<lparr>bit_count = 8, result = of_nat (2 * bits_val sigs + bit_of x),
             r_cout = r_cout s @ ''Received '' @ show_int (int (2 * bits_val sigs + bit_of x)) @ [newline]\<rparr>"
      by (rule handle_sigusr_last)
    moreover have "s = \<lparr>bit_count = 7, result = of_nat (bits_val sigs), r_cout = r_cout s\<rparr>"
      using s l7 by simp
    ultimately have "handle_sigusr x s = Exited 0 \<lparr>bit_count = 8, result = of_nat (2 * bits_val sigs + bit_of x),
             r_cout = r_cout s @ ''Received '' @ show_int (int (2 * bits_val sigs + bit_of x)) @ [newline]\<rparr>"
      by simp
    with l7 show ?thesis by (simp add: prefix_inv_iff bits_val_snoc)
  qed
qed

theorem accumulator_prefix_invariant_witness:
  "prefix_inv [] \<lparr>bit_count = 0, result = 0, r_cout = []\<rparr> \<and>
   (case receive (receiver_main 77) [SIGUSR2, SIGUSR1, SIGUSR2] of
      Running s \<Rightarrow> prefix_inv [SIGUSR2, SIGUSR1, SIGUSR2] s \<and>
                   0 \<le> sint (result s) \<and> sint (result s) < 2 ^ length [SIGUSR2, SIGUSR1, SIGUSR2]
    | Exited c s \<Rightarrow> False) \<and>
   (case handle_sigusr SIGUSR2 \<lparr>bit_count = 3, result = 5, r_cout = []\<rparr> of
      Running s' \<Rightarrow> length [SIGUSR2, SIGUSR1, SIGUSR2] < 7 \<and>
                    prefix_inv ([SIGUSR2, SIGUSR1, SIGUSR2] @ [SIGUSR2]) s'
    | Exited c s' \<Rightarrow> length [SIGUSR2, SIGUSR1, SIGUSR2] = 7 \<and> c = 0 \<and>
                     prefix_inv ([SIGUSR2, SIGUSR1, SIGUSR2] @ [SIGUSR2]) s')"
proof -
  have len: "length [SIGUSR2, SIGUSR1, SIGUSR2] < 8" by simp
  have inv: "prefix_inv [SIGUSR2, SIGUSR1, SIGUSR2] \<lparr>bit_count = 3, result = 5, r_cout = []\<rparr>"
    by (simp add: prefix_inv_iff bits_val_def bit_of_def)
  show ?thesis
    using accumulator_prefix_invariant
      [of "[]" "[SIGUSR2, SIGUSR1, SIGUSR2]" 77 "\<lparr>bit_count = 3, result = 5, r_cout = []\<rparr>" SIGUSR2]
      len inv
    by blast
qed

text \<open>
  Claim C4 (the terminal state).  The eighth symbol, and no earlier one, makes the
  handler print \<^verbatim>\<open>Received\<close> followed by the decimal value of the accumulator, which is
  below 256, and exit with status 0; signals that arrive later are not handled.  After
  each shorter prefix the process is still running and has printed nothing but its
  process id.
\<close>

theorem terminal_done:
  assumes "length sigs = 8"
  shows "receive (receiver_main pid) (sigs @ later) =
           Exited 0 \<lparr>bit_count = 8, result = of_nat (bits_val sigs),
                     r_cout = ''My PID is '' @ show_int pid @ [newline] @
                              ''Received '' @ show_int (int (bits_val sigs)) @ [newline]\<rparr> \<and>
         bits_val sigs < 256 \<and>
         sint (of_nat (bits_val sigs) :: 32 word) = int (bits_val sigs) \<and>
         (\<forall>k<8. receive (receiver_main pid) (take k sigs) =
                  Running \<lparr>bit_count = of_nat k, result = of_nat (bits_val (take k sigs)),
                           r_cout = ''My PID is '' @ show_int pid @ [newline]\<rparr>)"
proof (intro conjI allI impI)
  show "receive (receiver_main pid) (sigs @ later) =
           Exited 0 \<lparr>bit_count = 8, result = of_nat (bits_val sigs),
                     r_cout = ''My PID is '' @ show_int pid @ [newline] @
                              ''Received '' @ show_int (int (bits_val sigs)) @ [newline]\<rparr>"
    using assms by (simp add: receive_append receive_eight receive_Exited)
  show "bits_val sigs < 256"
    using bits_val_bound [of sigs] assms by simp
  show "sint (of_nat (bits_val sigs) :: 32 word) = int (bits_val sigs)"
    using assms by (intro sint_bits_val) simp
  fix k :: nat
  assume "k < 8"
  with assms have "length (take k sigs) < 8" and "length (take k sigs) = k" by simp_all
  then show "receive (receiver_main pid) (take k sigs) =
                  Running \<lparr>bit_count = of_nat k, result = of_nat (bits_val (take k sigs)),
                           r_cout = ''My PID is '' @ show_int pid @ [newline]\<rparr>"
    using receive_prefix [of "take k sigs" pid] by simp
qed

theorem terminal_done_witness:
  "receive (receiver_main 77)
     ([SIGUSR2, SIGUSR1, SIGUSR2, SIGUSR1, SIGUSR2, SIGUSR1, SIGUSR1, SIGUSR2] @ [SIGUSR2, SIGUSR2]) =
   Exited 0 \<lparr>bit_count = 8, result = 169,
             r_cout = ''My PID is 77'' @ [newline] @ ''Received 169'' @ [newline]\<rparr>"
proof -
  have "length [SIGUSR2, SIGUSR1, SIGUSR2, SIGUSR1, SIGUSR2, SIGUSR1, SIGUSR1, SIGUSR2] = 8"
    by simp
  from terminal_done [OF this, of 77 "[SIGUSR2, SIGUSR2]"] show ?thesis
    by (simp only: bits_val_169) (simp add: show_int_169 show_int_77)
qed

text \<open>
  Claim C6 (coalescing), as the specification states it: when one symbol of an
  8-symbol transmission is lost to coalescing, the receiver silently produces a wrong
  final reported value.  The program does not: with seven symbols handled it has
  reported no value at all and is still waiting for the eighth.  Here the value 169 is
  sent as \<^verbatim>\<open>SIGUSR2, SIGUSR1, SIGUSR2, SIGUSR1, SIGUSR2, SIGUSR1, SIGUSR1, SIGUSR2\<close> and the
  second of the two adjacent \<^verbatim>\<open>SIGUSR1\<close> (position 6) is merged with the first.  Nor is
  the value wrong whenever one is reported later: the value 0 with one symbol lost,
  completed by a later \<^verbatim>\<open>SIGUSR1\<close>, is reported as 0.
\<close>

theorem coalescing_counterexample:
  "receive (receiver_main 77)
     (lose_at 6 [SIGUSR2, SIGUSR1, SIGUSR2, SIGUSR1, SIGUSR2, SIGUSR1, SIGUSR1, SIGUSR2]) =
   Running \<lparr>bit_count = 7, result = 85, r_cout = ''My PID is 77'' @ [newline]\<rparr> \<and>
   receive (receiver_main 77)
     (lose_at 3 [SIGUSR1, SIGUSR1, SIGUSR1, SIGUSR1, SIGUSR1, SIGUSR1, SIGUSR1, SIGUSR1] @ [SIGUSR1]) =
   Exited 0 \<lparr>bit_count = 8, result = 0,
             r_cout = ''My PID is 77'' @ [newline] @ ''Received 0'' @ [newline]\<rparr>"
proof
  have l: "lose_at 6 [SIGUSR2, SIGUSR1, SIGUSR2, SIGUSR1, SIGUSR2, SIGUSR1, SIGUSR1, SIGUSR2] =
        [SIGUSR2, SIGUSR1, SIGUSR2, SIGUSR1, SIGUSR2, SIGUSR1, SIGUSR2]"
    by (simp add: lose_at_def)
  have "bits_val [SIGUSR2, SIGUSR1, SIGUSR2, SIGUSR1, SIGUSR2, SIGUSR1, SIGUSR2] = 85"
    by (simp add: bits_val_def bit_of_def)
  then show "receive (receiver_main 77)
     (lose_at 6 [SIGUSR2, SIGUSR1, SIGUSR2, SIGUSR1, SIGUSR2, SIGUSR1, SIGUSR1, SIGUSR2]) =
   Running \<lparr>bit_count = 7, result = 85, r_cout = ''My PID is 77'' @ [newline]\<rparr>"
    by (simp only: l) (simp add: receive_prefix show_int_77)
next
  have l: "lose_at 3 [SIGUSR1, SIGUSR1, SIGUSR1, SIGUSR1, SIGUSR1, SIGUSR1, SIGUSR1, SIGUSR1] @ [SIGUSR1] =
        [SIGUSR1, SIGUSR1, SIGUSR1, SIGUSR1, SIGUSR1, SIGUSR1, SIGUSR1, SIGUSR1]"
    by (simp add: lose_at_def)
  have "bits_val [SIGUSR1, SIGUSR1, SIGUSR1, SIGUSR1, SIGUSR1, SIGUSR1, SIGUSR1, SIGUSR1] = 0"
    by (simp add: bits_val_def bit_of_def)
  then show "receive (receiver_main 77)
     (lose_at 3 [SIGUSR1, SIGUSR1, SIGUSR1, SIGUSR1, SIGUSR1, SIGUSR1, SIGUSR1, SIGUSR1] @ [SIGUSR1]) =
   Exited 0 \<lparr>bit_count = 8, result = 0,
             r_cout = ''My PID is 77'' @ [newline] @ ''Received 0'' @ [newline]\<rparr>"
    by (simp only: l) (simp add: receive_eight show_int_77 show_int_0)
qed

text \<open>
  Claim C6 as amended.  When one symbol of the eight that the loop sends for a value
  from 0 to 255 is lost, the receiver detects nothing and reports nothing: after the
  seven symbols that remain it is still running, has printed only its process id, and
  holds \<open>bit_count = 7\<close> and in \<open>result\<close> the value the seven symbols spell.  It prints
  a value only if one more signal arrives, and that value is the one spelled by the
  seven symbols followed by the late one.
\<close>

theorem coalescing_silent:
  assumes "0 \<le> v" and "v \<le> 255" and "\<forall>n<8. os (kills s + n) pid = None" and "i < 8"
  shows "case send_loop os pid v 7 s of
           Inl e \<Rightarrow> False
         | Inr s' \<Rightarrow>
             (let got = lose_at i (map snd (drop (length (sent s)) (sent s')))
              in receive (receiver_main pid) got =
                   Running \<lparr>bit_count = 7, result = of_nat (bits_val got),
                            r_cout = ''My PID is '' @ show_int pid @ [newline]\<rparr> \<and>
                 (\<forall>x. receive (receiver_main pid) (got @ [x]) =
                   Exited 0 \<lparr>bit_count = 8, result = of_nat (bits_val (got @ [x])),
                             r_cout = ''My PID is '' @ show_int pid @ [newline] @
                                      ''Received '' @ show_int (int (bits_val (got @ [x]))) @ [newline]\<rparr>))"
proof -
  let ?syms = "map (\<lambda>i. if bit v i then SIGUSR2 else SIGUSR1) (rev [0..<8])"
  let ?got = "lose_at i ?syms"
  have loop: "send_loop os pid v (int 8 - 1) s =
        Inr (s\<lparr>kills := kills s + 8,
               sent := sent s @ map (\<lambda>i. (pid, if bit v i then SIGUSR2 else SIGUSR1)) (rev [0..<8])\<rparr>)"
    using assms(3) by (intro send_loop_ok) simp
  have snd: "map snd (map (\<lambda>i. (pid, if bit v i then SIGUSR2 else SIGUSR1)) (rev [0..<8])) = ?syms"
    by (simp add: comp_def)
  have len: "length ?got = 7"
    using assms(4) by (simp add: length_lose_at del: upt_Suc)
  then have run: "receive (receiver_main pid) ?got =
      Running \<lparr>bit_count = 7, result = of_nat (bits_val ?got),
               r_cout = ''My PID is '' @ show_int pid @ [newline]\<rparr>"
    using receive_prefix [of ?got pid] by simp
  have ex: "receive (receiver_main pid) (?got @ [x]) =
      Exited 0 \<lparr>bit_count = 8, result = of_nat (bits_val (?got @ [x])),
                r_cout = ''My PID is '' @ show_int pid @ [newline] @
                         ''Received '' @ show_int (int (bits_val (?got @ [x]))) @ [newline]\<rparr>" for x
    using len by (intro receive_eight) simp
  have "send_loop os pid v 7 s =
        Inr (s\<lparr>kills := kills s + 8,
               sent := sent s @ map (\<lambda>i. (pid, if bit v i then SIGUSR2 else SIGUSR1)) (rev [0..<8])\<rparr>)"
    using loop by simp
  then show ?thesis
    using run ex by (simp only: sum.case Let_def snd select_convs update_convs append_eq_conv_conj drop_append length_map)
      (simp del: upt_Suc rev_rev_ident add: snd comp_def)
qed

theorem coalescing_silent_witness:
  "send_loop (\<lambda>n p. None) 77 169 7 (sender_start []) =
     Inr \<lparr>cin = \<lparr>buf = [], failbit = False, eofbit = False\<rparr>, cout = [], cerr = [], kills = 8,
          sent = [(77, SIGUSR2), (77, SIGUSR1), (77, SIGUSR2), (77, SIGUSR1),
                  (77, SIGUSR2), (77, SIGUSR1), (77, SIGUSR1), (77, SIGUSR2)]\<rparr> \<and>
   receive (receiver_main 77)
     (lose_at 6 [SIGUSR2, SIGUSR1, SIGUSR2, SIGUSR1, SIGUSR2, SIGUSR1, SIGUSR1, SIGUSR2]) =
     Running \<lparr>bit_count = 7, result = 85, r_cout = ''My PID is 77'' @ [newline]\<rparr> \<and>
   receive (receiver_main 77)
     (lose_at 6 [SIGUSR2, SIGUSR1, SIGUSR2, SIGUSR1, SIGUSR2, SIGUSR1, SIGUSR1, SIGUSR2] @ [SIGUSR1]) =
     Exited 0 \<lparr>bit_count = 8, result = 170,
               r_cout = ''My PID is 77'' @ [newline] @ ''Received 170'' @ [newline]\<rparr>"
proof -
  have ok: "\<forall>n<8. (\<lambda>(n::nat) (p::int). None :: errno option) (kills (sender_start []) + n) 77 = None"
    by simp
  have loop: "send_loop (\<lambda>n p. None) 77 169 7 (sender_start []) =
     Inr \<lparr>cin = \<lparr>buf = [], failbit = False, eofbit = False\<rparr>, cout = [], cerr = [], kills = 8,
          sent = [(77, SIGUSR2), (77, SIGUSR1), (77, SIGUSR2), (77, SIGUSR1),
                  (77, SIGUSR2), (77, SIGUSR1), (77, SIGUSR1), (77, SIGUSR2)]\<rparr>"
    using send_loop_ok [of 8 "\<lambda>n p. None" "sender_start []" 77 169]
    by (simp add: sender_start_def upt_rec)
  have l: "lose_at 6 [SIGUSR2, SIGUSR1, SIGUSR2, SIGUSR1, SIGUSR2, SIGUSR1, SIGUSR1, SIGUSR2] =
        [SIGUSR2, SIGUSR1, SIGUSR2, SIGUSR1, SIGUSR2, SIGUSR1, SIGUSR2]"
    by (simp add: lose_at_def)
  have b7: "bits_val [SIGUSR2, SIGUSR1, SIGUSR2, SIGUSR1, SIGUSR2, SIGUSR1, SIGUSR2] = 85"
    by (simp add: bits_val_def bit_of_def)
  have b8: "bits_val [SIGUSR2, SIGUSR1, SIGUSR2, SIGUSR1, SIGUSR2, SIGUSR1, SIGUSR2, SIGUSR1] = 170"
    by (simp add: bits_val_def bit_of_def)
  let ?S = "\<lparr>cin = \<lparr>buf = [], failbit = False, eofbit = False\<rparr>, cout = [], cerr = [], kills = 8,
          sent = [(77, SIGUSR2), (77, SIGUSR1), (77, SIGUSR2), (77, SIGUSR1),
                  (77, SIGUSR2), (77, SIGUSR1), (77, SIGUSR1), (77, SIGUSR2)]\<rparr>"
  have got: "lose_at 6 (map snd (drop (length (sent (sender_start []))) (sent ?S))) =
        [SIGUSR2, SIGUSR1, SIGUSR2, SIGUSR1, SIGUSR2, SIGUSR1, SIGUSR2]"
    by (simp add: lose_at_def sender_start_def)
  have "case send_loop (\<lambda>n p. None) 77 169 7 (sender_start []) of
           Inl e \<Rightarrow> False
         | Inr s' \<Rightarrow>
             (let got = lose_at 6 (map snd (drop (length (sent (sender_start []))) (sent s')))
              in receive (receiver_main 77) got =
                   Running \<lparr>bit_count = 7, result = of_nat (bits_val got),
                            r_cout = ''My PID is '' @ show_int 77 @ [newline]\<rparr> \<and>
                 (\<forall>x. receive (receiver_main 77) (got @ [x]) =
                   Exited 0 \<lparr>bit_count = 8, result = of_nat (bits_val (got @ [x])),
                             r_cout = ''My PID is '' @ show_int 77 @ [newline] @
                                      ''Received '' @ show_int (int (bits_val (got @ [x]))) @ [newline]\<rparr>))"
    by (rule coalescing_silent [of 169 "\<lambda>n p. None" "sender_start []" 77 6, OF _ _ ok]) simp_all
  then have "receive (receiver_main 77) [SIGUSR2, SIGUSR1, SIGUSR2, SIGUSR1, SIGUSR2, SIGUSR1, SIGUSR2] =
      Running \<lparr>bit_count = 7,
               result = of_nat (bits_val [SIGUSR2, SIGUSR1, SIGUSR2, SIGUSR1, SIGUSR2, SIGUSR1, SIGUSR2]),
               r_cout = ''My PID is '' @ show_int 77 @ [newline]\<rparr> \<and>
    (\<forall>x. receive (receiver_main 77) ([SIGUSR2, SIGUSR1, SIGUSR2, SIGUSR1, SIGUSR2, SIGUSR1, SIGUSR2] @ [x]) =
      Exited 0 \<lparr>bit_count = 8,
                result = of_nat (bits_val ([SIGUSR2, SIGUSR1, SIGUSR2, SIGUSR1, SIGUSR2, SIGUSR1, SIGUSR2] @ [x])),
                r_cout = ''My PID is '' @ show_int 77 @ [newline] @ ''Received '' @
                  show_int (int (bits_val ([SIGUSR2, SIGUSR1, SIGUSR2, SIGUSR1, SIGUSR2, SIGUSR1, SIGUSR2] @ [x]))) @
                  [newline]\<rparr>)"
    by (simp only: loop sum.case Let_def got simp_thms)
  then have "receive (receiver_main 77) [SIGUSR2, SIGUSR1, SIGUSR2, SIGUSR1, SIGUSR2, SIGUSR1, SIGUSR2] =
      Running \<lparr>bit_count = 7, result = 85, r_cout = ''My PID is 77'' @ [newline]\<rparr> \<and>
    receive (receiver_main 77) ([SIGUSR2, SIGUSR1, SIGUSR2, SIGUSR1, SIGUSR2, SIGUSR1, SIGUSR2] @ [SIGUSR1]) =
      Exited 0 \<lparr>bit_count = 8, result = 170,
                r_cout = ''My PID is 77'' @ [newline] @ ''Received 170'' @ [newline]\<rparr>"
    using b7 b8 by (simp add: show_int_77 show_int_170)
  with loop show ?thesis
    by (simp only: l)
qed

section \<open>The claims about the validation of the input\<close>

text \<open>
  Claim C8 (invalid input is asked for again and never acted on).  A pass through the
  first loop ends in \<^verbatim>\<open>continue\<close> exactly when the input is not a valid process id: the
  stream is not good, or what is read is not a number within \<^verbatim>\<open>int\<close>, or the number is not
  positive, or \<^verbatim>\<open>kill(pid, 0)\<close> fails.  A pass through the second loop ends in \<^verbatim>\<open>continue\<close>
  exactly when the input is not a number from 0 to 255 followed at once by the end of
  the line.  A pass that ends in \<^verbatim>\<open>continue\<close> sends no signal, writes nothing to the error
  stream, prints the prompt and the message, and the loop runs again.  Whenever \<^verbatim>\<open>main\<close>
  returns, both loops have accepted a value, no signal was sent before that, the
  process id is positive and was answered by \<^verbatim>\<open>kill\<close>, the value is from 0 to 255, and
  the signals sent are the first symbols of that value to that process.
\<close>

theorem invalid_input_reprompts:
  "((\<exists>q t. pid_body os p s = Continue q t) \<longleftrightarrow>
      \<not> (good (cin s) \<and>
         (\<exists>q rest. spells (buf (cin s)) q rest \<and> 0 < q \<and> q \<le> INT_MAX \<and> os (kills s) q = None))) \<and>
   (pid_body os p s = Continue pid s' \<longrightarrow>
      pid_loop os p s = pid_loop os pid s' \<and> sent s' = sent s \<and> cerr s' = cerr s \<and>
      cout s' = cout s @ ''Enter receiver PID: '' @ ''Invalid or unavailable PID.'' @ [newline]) \<and>
   ((\<exists>m t. number_body n s = Continue m t) \<longleftrightarrow>
      \<not> (good (cin s) \<and>
         (\<exists>m rest. spells (buf (cin s)) m (newline # rest) \<and> 0 \<le> m \<and> m \<le> 255))) \<and>
   (number_body n s = Continue v s' \<longrightarrow>
      number_loop n s = number_loop v s' \<and> sent s' = sent s \<and> kills s' = kills s \<and>
      cerr s' = cerr s \<and>
      (\<exists>msg \<in> set [''Invalid input. Please enter a valid number between 0 and 255.'',
                      ''Invalid input. Please enter a number between 0 and 255.'',
                      ''Invalid number. Please enter a number between 0 and 255.''].
         cout s' = cout s @ ''Enter message: '' @ msg @ [newline])) \<and>
   (sender_main os p n input = Some (code, sf) \<longrightarrow>
      (\<exists>q m s1 s2 j.
         pid_loop os p (sender_start input) = Some (q, s1) \<and>
         number_loop n s1 = Some (m, s2) \<and> sent s2 = [] \<and>
         0 < q \<and> (\<exists>t < kills s1. os t q = None) \<and> 0 \<le> m \<and> m \<le> 255 \<and> j \<le> 8 \<and>
         sent sf = map (\<lambda>i. (q, if bit m i then SIGUSR2 else SIGUSR1))
                       (take j [7, 6, 5, 4, 3, 2, 1, 0])))"
proof (intro conjI impI)
  show "(\<exists>q t. pid_body os p s = Continue q t) \<longleftrightarrow>
      \<not> (good (cin s) \<and>
         (\<exists>q rest. spells (buf (cin s)) q rest \<and> 0 < q \<and> q \<le> INT_MAX \<and> os (kills s) q = None))"
  proof (cases "pid_body os p s")
    case (Continue q t)
    have "\<not> (good (cin s) \<and>
         (\<exists>q rest. spells (buf (cin s)) q rest \<and> 0 < q \<and> q \<le> INT_MAX \<and> os (kills s) q = None))"
    proof
      assume "good (cin s) \<and>
         (\<exists>q rest. spells (buf (cin s)) q rest \<and> 0 < q \<and> q \<le> INT_MAX \<and> os (kills s) q = None)"
      then obtain q' rest where "good (cin s)" "spells (buf (cin s)) q' rest" "0 < q'"
        "q' \<le> INT_MAX" "os (kills s) q' = None" by blast
      from pid_body_valid [where os = os and p = p, OF this] Continue show False by simp
    qed
    with Continue show ?thesis by simp
  next
    case (Break q t)
    from pid_body_Break [OF Break]
    have "good (cin s) \<and>
         (\<exists>q rest. spells (buf (cin s)) q rest \<and> 0 < q \<and> q \<le> INT_MAX \<and> os (kills s) q = None)"
      by blast
    with Break show ?thesis by simp
  qed
next
  assume "pid_body os p s = Continue pid s'"
  from pid_body_Continue [OF this]
  show "pid_loop os p s = pid_loop os pid s'" and "sent s' = sent s" and "cerr s' = cerr s"
    and "cout s' = cout s @ ''Enter receiver PID: '' @ ''Invalid or unavailable PID.'' @ [newline]"
    by simp_all
next
  show "(\<exists>m t. number_body n s = Continue m t) \<longleftrightarrow>
      \<not> (good (cin s) \<and>
         (\<exists>m rest. spells (buf (cin s)) m (newline # rest) \<and> 0 \<le> m \<and> m \<le> 255))"
  proof (cases "number_body n s")
    case (Continue m t)
    have "\<not> (good (cin s) \<and>
         (\<exists>m rest. spells (buf (cin s)) m (newline # rest) \<and> 0 \<le> m \<and> m \<le> 255))"
    proof
      assume "good (cin s) \<and>
         (\<exists>m rest. spells (buf (cin s)) m (newline # rest) \<and> 0 \<le> m \<and> m \<le> 255)"
      then obtain m' rest where "good (cin s)" "spells (buf (cin s)) m' (newline # rest)"
        "0 \<le> m'" "m' \<le> 255" by blast
      from number_body_valid [OF this, of n] Continue show False by simp
    qed
    with Continue show ?thesis by simp
  next
    case (Break m t)
    from number_body_Break [OF Break]
    have "good (cin s) \<and>
         (\<exists>m rest. spells (buf (cin s)) m (newline # rest) \<and> 0 \<le> m \<and> m \<le> 255)"
      by blast
    with Break show ?thesis by simp
  qed
next
  assume "number_body n s = Continue v s'"
  from number_body_Continue [OF this]
  show "number_loop n s = number_loop v s'" and "sent s' = sent s" and "kills s' = kills s"
    and "cerr s' = cerr s"
    and "\<exists>msg \<in> set [''Invalid input. Please enter a valid number between 0 and 255.'',
                      ''Invalid input. Please enter a number between 0 and 255.'',
                      ''Invalid number. Please enter a number between 0 and 255.''].
         cout s' = cout s @ ''Enter message: '' @ msg @ [newline]"
    by blast+
next
  assume "sender_main os p n input = Some (code, sf)"
  then show "\<exists>q m s1 s2 j.
         pid_loop os p (sender_start input) = Some (q, s1) \<and>
         number_loop n s1 = Some (m, s2) \<and> sent s2 = [] \<and>
         0 < q \<and> (\<exists>t < kills s1. os t q = None) \<and> 0 \<le> m \<and> m \<le> 255 \<and> j \<le> 8 \<and>
         sent sf = map (\<lambda>i. (q, if bit m i then SIGUSR2 else SIGUSR1))
                       (take j [7, 6, 5, 4, 3, 2, 1, 0])"
    by (rule sender_main_Some)
qed

text \<open>
  A process id whose process does not exist (999) and a value out of range (300) are
  each asked for again; the run that follows them with 4242 and 169 sends the eight
  symbols of 169 to 4242.
\<close>

theorem invalid_input_reprompts_witness:
  "pid_body (\<lambda>n p. if p = 999 then Some ESRCH else None) 0 (sender_start (''999'' @ [newline])) =
     Continue 999 \<lparr>cin = \<lparr>buf = [], failbit = False, eofbit = False\<rparr>,
                   cout = ''Enter receiver PID: Invalid or unavailable PID.'' @ [newline],
                   cerr = [], kills = 1, sent = []\<rparr> \<and>
   \<not> (good (cin (sender_start (''999'' @ [newline]))) \<and>
      (\<exists>q rest. spells (buf (cin (sender_start (''999'' @ [newline])))) q rest \<and> 0 < q \<and> q \<le> INT_MAX \<and>
         (\<lambda>n p. if p = 999 then Some ESRCH else None) (kills (sender_start (''999'' @ [newline]))) q = None)) \<and>
   pid_loop (\<lambda>n p. if p = 999 then Some ESRCH else None) 0 (sender_start (''999'' @ [newline])) =
     pid_loop (\<lambda>n p. if p = 999 then Some ESRCH else None) 999
       \<lparr>cin = \<lparr>buf = [], failbit = False, eofbit = False\<rparr>,
        cout = ''Enter receiver PID: Invalid or unavailable PID.'' @ [newline],
        cerr = [], kills = 1, sent = []\<rparr> \<and>
   number_body 0 (sender_start (''300'' @ [newline])) =
     Continue 300 \<lparr>cin = \<lparr>buf = [newline], failbit = False, eofbit = False\<rparr>,
                   cout = ''Enter message: Invalid number. Please enter a number between 0 and 255.'' @ [newline],
                   cerr = [], kills = 0, sent = []\<rparr> \<and>
   \<not> (good (cin (sender_start (''300'' @ [newline]))) \<and>
      (\<exists>m rest. spells (buf (cin (sender_start (''300'' @ [newline])))) m (newline # rest) \<and>
         0 \<le> m \<and> m \<le> 255)) \<and>
   number_loop 0 (sender_start (''300'' @ [newline])) =
     number_loop 300 \<lparr>cin = \<lparr>buf = [newline], failbit = False, eofbit = False\<rparr>,
                   cout = ''Enter message: Invalid number. Please enter a number between 0 and 255.'' @ [newline],
                   cerr = [], kills = 0, sent = []\<rparr> \<and>
   sender_main (\<lambda>n p. if p = 999 then Some ESRCH else None) 0 0
     (''999'' @ [newline] @ ''4242'' @ [newline] @ ''300'' @ [newline] @ ''169'' @ [newline]) =
     Some (0, \<lparr>cin = \<lparr>buf = [newline], failbit = False, eofbit = False\<rparr>,
               cout = ''Enter receiver PID: Invalid or unavailable PID.'' @ [newline] @
                      ''Enter receiver PID: '' @
                      ''Enter message: Invalid number. Please enter a number between 0 and 255.'' @ [newline] @
                      ''Enter message: '',
               cerr = [], kills = 10,
               sent = [(4242, SIGUSR2), (4242, SIGUSR1), (4242, SIGUSR2), (4242, SIGUSR1),
                       (4242, SIGUSR2), (4242, SIGUSR1), (4242, SIGUSR1), (4242, SIGUSR2)]\<rparr>) \<and>
   (\<exists>q m s1 s2 j.
      pid_loop (\<lambda>n p. if p = 999 then Some ESRCH else None) 0
        (sender_start (''999'' @ [newline] @ ''4242'' @ [newline] @ ''300'' @ [newline] @ ''169'' @ [newline])) = Some (q, s1) \<and>
      number_loop 0 s1 = Some (m, s2) \<and> sent s2 = [] \<and>
      0 < q \<and> (\<exists>t < kills s1. (\<lambda>n p. if p = 999 then Some ESRCH else None) t q = None) \<and>
      0 \<le> m \<and> m \<le> 255 \<and> j \<le> 8 \<and>
      [(4242, SIGUSR2), (4242, SIGUSR1), (4242, SIGUSR2), (4242, SIGUSR1),
       (4242, SIGUSR2), (4242, SIGUSR1), (4242, SIGUSR1), (4242, SIGUSR2)] =
      map (\<lambda>i. (q, if bit m i then SIGUSR2 else SIGUSR1)) (take j [7, 6, 5, 4, 3, 2, 1, 0]))"
proof -
  let ?os = "\<lambda>(n::nat) (p::int). if p = 999 then Some ESRCH else None"
  let ?sp = "sender_start (''999'' @ [newline])"
  let ?sp' = "\<lparr>cin = \<lparr>buf = [], failbit = False, eofbit = False\<rparr>,
                   cout = ''Enter receiver PID: Invalid or unavailable PID.'' @ [newline],
                   cerr = [], kills = 1, sent = []\<rparr>"
  let ?sn = "sender_start (''300'' @ [newline])"
  let ?sn' = "\<lparr>cin = \<lparr>buf = [newline], failbit = False, eofbit = False\<rparr>,
                   cout = ''Enter message: Invalid number. Please enter a number between 0 and 255.'' @ [newline],
                   cerr = [], kills = 0, sent = []\<rparr>"
  let ?input = "''999'' @ [newline] @ ''4242'' @ [newline] @ ''300'' @ [newline] @ ''169'' @ [newline]"
  let ?sf = "\<lparr>cin = \<lparr>buf = [newline], failbit = False, eofbit = False\<rparr>,
               cout = ''Enter receiver PID: Invalid or unavailable PID.'' @ [newline] @
                      ''Enter receiver PID: '' @
                      ''Enter message: Invalid number. Please enter a number between 0 and 255.'' @ [newline] @
                      ''Enter message: '',
               cerr = [], kills = 10,
               sent = [(4242, SIGUSR2), (4242, SIGUSR1), (4242, SIGUSR2), (4242, SIGUSR1),
                       (4242, SIGUSR2), (4242, SIGUSR1), (4242, SIGUSR1), (4242, SIGUSR2)]\<rparr>"
  have pb: "pid_body ?os 0 ?sp = Continue 999 ?sp'"
    by code_simp
  have nb: "number_body 0 ?sn = Continue 300 ?sn'"
    by code_simp
  let ?s1 = "\<lparr>cin = \<lparr>buf = [newline] @ ''300'' @ [newline] @ ''169'' @ [newline],
                        failbit = False, eofbit = False\<rparr>,
               cout = ''Enter receiver PID: Invalid or unavailable PID.'' @ [newline] @
                      ''Enter receiver PID: '',
               cerr = [], kills = 2, sent = []\<rparr>"
  let ?s2 = "\<lparr>cin = \<lparr>buf = [newline], failbit = False, eofbit = False\<rparr>,
               cout = ''Enter receiver PID: Invalid or unavailable PID.'' @ [newline] @
                      ''Enter receiver PID: '' @
                      ''Enter message: Invalid number. Please enter a number between 0 and 255.'' @ [newline] @
                      ''Enter message: '',
               cerr = [], kills = 2, sent = []\<rparr>"
  have pl: "pid_loop ?os 0 (sender_start ?input) = Some (4242, ?s1)"
    by code_simp
  have nl: "number_loop 0 ?s1 = Some (169, ?s2)"
    by code_simp
  have sl: "send_loop ?os 4242 169 7 ?s2 = Inr ?sf"
    by code_simp
  have sm: "sender_main ?os 0 0 ?input = Some (0, ?sf)"
    unfolding sender_main_def by (simp only: pl nl sl option.case prod.case sum.case)
  note a = invalid_input_reprompts [where os = ?os and p = 0 and s = ?sp and pid = 999 and s' = ?sp']
  note b = invalid_input_reprompts [where n = 0 and s = ?sn and v = 300 and s' = ?sn']
  note c = invalid_input_reprompts [where os = ?os and p = 0 and n = 0 and input = ?input
      and code = 0 and sf = ?sf]
  from a pb have a1: "\<not> (good (cin ?sp) \<and>
      (\<exists>q rest. spells (buf (cin ?sp)) q rest \<and> 0 < q \<and> q \<le> INT_MAX \<and> ?os (kills ?sp) q = None))"
    and a2: "pid_loop ?os 0 ?sp = pid_loop ?os 999 ?sp'"
    by blast+
  from b nb have b1: "\<not> (good (cin ?sn) \<and>
      (\<exists>m rest. spells (buf (cin ?sn)) m (newline # rest) \<and> 0 \<le> m \<and> m \<le> 255))"
    and b2: "number_loop 0 ?sn = number_loop 300 ?sn'"
    by blast+
  from c sm have c1: "\<exists>q m s1 s2 j.
      pid_loop ?os 0 (sender_start ?input) = Some (q, s1) \<and>
      number_loop 0 s1 = Some (m, s2) \<and> sent s2 = [] \<and>
      0 < q \<and> (\<exists>t < kills s1. ?os t q = None) \<and>
      0 \<le> m \<and> m \<le> 255 \<and> j \<le> 8 \<and>
      sent ?sf = map (\<lambda>i. (q, if bit m i then SIGUSR2 else SIGUSR1)) (take j [7, 6, 5, 4, 3, 2, 1, 0])"
    by blast
  have "sent ?sf = [(4242, SIGUSR2), (4242, SIGUSR1), (4242, SIGUSR2), (4242, SIGUSR1),
                       (4242, SIGUSR2), (4242, SIGUSR1), (4242, SIGUSR1), (4242, SIGUSR2)]"
    by simp
  with c1 have c2: "\<exists>q m s1 s2 j.
      pid_loop ?os 0 (sender_start ?input) = Some (q, s1) \<and>
      number_loop 0 s1 = Some (m, s2) \<and> sent s2 = [] \<and>
      0 < q \<and> (\<exists>t < kills s1. ?os t q = None) \<and>
      0 \<le> m \<and> m \<le> 255 \<and> j \<le> 8 \<and>
      [(4242, SIGUSR2), (4242, SIGUSR1), (4242, SIGUSR2), (4242, SIGUSR1),
       (4242, SIGUSR2), (4242, SIGUSR1), (4242, SIGUSR1), (4242, SIGUSR2)] =
      map (\<lambda>i. (q, if bit m i then SIGUSR2 else SIGUSR1)) (take j [7, 6, 5, 4, 3, 2, 1, 0])"
    by (simp only:)
  from pb a1 a2 nb b1 b2 sm c2 show ?thesis
    by (intro conjI)
qed

text \<open>
  Claim C9 (the process id may be followed by other characters).  On the line
  \<^verbatim>\<open>123abc\<close>, with process 123 alive, the first loop accepts 123 and leaves \<^verbatim>\<open>abc\<close> and the
  end of the line in the stream: only the second loop looks at the character after the
  number.  The first pass of the second loop then fails to read a number, discards the
  rest of the line, prints its message and asks again.
\<close>

theorem pid_trailing_characters_accepted:
  assumes "good (cin s)" and "buf (cin s) = ''123abc'' @ newline # rest" and "os (kills s) 123 = None"
  shows "pid_loop os p s =
           Some (123, s\<lparr>cin := \<lparr>buf = ''abc'' @ newline # rest, failbit = False, eofbit = False\<rparr>,
                        cout := cout s @ ''Enter receiver PID: '',
                        kills := Suc (kills s)\<rparr>) \<and>
         number_body n (s\<lparr>cin := \<lparr>buf = ''abc'' @ newline # rest, failbit = False, eofbit = False\<rparr>,
                        cout := cout s @ ''Enter receiver PID: '',
                        kills := Suc (kills s)\<rparr>) =
           Continue 0 (s\<lparr>cin := \<lparr>buf = rest, failbit = False, eofbit = False\<rparr>,
                        cout := cout s @ ''Enter receiver PID: '' @ ''Enter message: '' @
                          ''Invalid input. Please enter a valid number between 0 and 255.'' @ [newline],
                        kills := Suc (kills s)\<rparr>)"
proof
  have c: "cin s = \<lparr>buf = ''123abc'' @ newline # rest, failbit = False, eofbit = False\<rparr>"
    using assms(1,2) by (cases "cin s") (simp add: good_def)
  have e: "extract_int p (cin s) =
           (123, \<lparr>buf = ''abc'' @ newline # rest, failbit = False, eofbit = False\<rparr>)"
    by (simp add: c extract_int_def good_def isspace_def isdigit_def digits_val_def INT_MAX_def INT_MIN_def)
  have "pid_body os p s =
        Break 123 (s\<lparr>cin := \<lparr>buf = ''abc'' @ newline # rest, failbit = False, eofbit = False\<rparr>,
                     cout := cout s @ ''Enter receiver PID: '',
                     kills := Suc (kills s)\<rparr>)"
    using assms(3) by (simp add: pid_body_def e)
  then show "pid_loop os p s =
           Some (123, s\<lparr>cin := \<lparr>buf = ''abc'' @ newline # rest, failbit = False, eofbit = False\<rparr>,
                        cout := cout s @ ''Enter receiver PID: '',
                        kills := Suc (kills s)\<rparr>)"
    by (subst pid_loop.simps) simp
next
  have e: "extract_int n \<lparr>buf = CHR ''a'' # CHR ''b'' # CHR ''c'' # newline # rest, failbit = False, eofbit = False\<rparr> =
           (0, \<lparr>buf = CHR ''a'' # CHR ''b'' # CHR ''c'' # newline # rest, failbit = True, eofbit = False\<rparr>)"
    by (simp add: extract_int_def good_def isspace_def isdigit_def)
  have i: "ignore_line (clear \<lparr>buf = CHR ''a'' # CHR ''b'' # CHR ''c'' # newline # rest, failbit = True, eofbit = False\<rparr>) =
           \<lparr>buf = rest, failbit = False, eofbit = False\<rparr>"
    by (simp add: ignore_line_def clear_def good_def newline_def)
  show "number_body n (s\<lparr>cin := \<lparr>buf = ''abc'' @ newline # rest, failbit = False, eofbit = False\<rparr>,
                        cout := cout s @ ''Enter receiver PID: '',
                        kills := Suc (kills s)\<rparr>) =
           Continue 0 (s\<lparr>cin := \<lparr>buf = rest, failbit = False, eofbit = False\<rparr>,
                        cout := cout s @ ''Enter receiver PID: '' @ ''Enter message: '' @
                          ''Invalid input. Please enter a valid number between 0 and 255.'' @ [newline],
                        kills := Suc (kills s)\<rparr>)"
    by (simp add: number_body_def e i)
qed

theorem pid_trailing_characters_accepted_witness:
  "pid_loop (\<lambda>n p. if p = 123 then None else Some ESRCH) 0
     (sender_start (''123abc'' @ newline # ''7'' @ [newline])) =
     Some (123, \<lparr>cin = \<lparr>buf = ''abc'' @ newline # ''7'' @ [newline], failbit = False, eofbit = False\<rparr>,
                 cout = ''Enter receiver PID: '', cerr = [], kills = 1, sent = []\<rparr>) \<and>
   number_body 0 \<lparr>cin = \<lparr>buf = ''abc'' @ newline # ''7'' @ [newline], failbit = False, eofbit = False\<rparr>,
                  cout = ''Enter receiver PID: '', cerr = [], kills = 1, sent = []\<rparr> =
     Continue 0 \<lparr>cin = \<lparr>buf = ''7'' @ [newline], failbit = False, eofbit = False\<rparr>,
                 cout = ''Enter receiver PID: '' @ ''Enter message: '' @
                        ''Invalid input. Please enter a valid number between 0 and 255.'' @ [newline],
                 cerr = [], kills = 1, sent = []\<rparr>"
proof -
  let ?os = "\<lambda>(n::nat) (p::int). if p = 123 then None else Some ESRCH"
  let ?s = "sender_start (''123abc'' @ newline # ''7'' @ [newline])"
  have g: "good (cin ?s)" by (simp add: sender_start_def good_def)
  have b: "buf (cin ?s) = ''123abc'' @ newline # (''7'' @ [newline])" by (simp add: sender_start_def)
  have k: "?os (kills ?s) 123 = None" by simp
  from pid_trailing_characters_accepted
    [where s = ?s and rest = "''7'' @ [newline]" and os = ?os and p = 0 and n = 0, OF g b k]
  show ?thesis
    by (simp add: sender_start_def)
qed

text \<open>
  Claim C10 (the loops do not end when the input does).  Each validation loop fails to
  return exactly when, after some number of passes that all ended in \<^verbatim>\<open>continue\<close>, the
  input is used up; \<^verbatim>\<open>main\<close> fails to return exactly when one of its two loops does.  From
  then on every pass clears the flags, finds the end of the input again, prints the
  prompt and the message and continues: the output only grows by those two texts, and
  nothing reports the end of the input.
\<close>

theorem eof_never_terminates:
  "(pid_loop os p s = None \<longleftrightarrow>
      (\<exists>k q t. pid_retries k os p s = Some (q, t) \<and> buf (cin t) = [])) \<and>
   (number_loop n s = None \<longleftrightarrow>
      (\<exists>k m t. number_retries k n s = Some (m, t) \<and> buf (cin t) = [])) \<and>
   (sender_main os p n input = None \<longleftrightarrow>
      pid_loop os p (sender_start input) = None \<or>
      (\<exists>q t. pid_loop os p (sender_start input) = Some (q, t) \<and> number_loop n t = None)) \<and>
   (pid_retries k os p s = Some (p', s') \<and> buf (cin s') = [] \<longrightarrow>
      (\<forall>m. pid_retries (k + Suc m) os p s =
         Some (p', s'\<lparr>cin := \<lparr>buf = [], failbit = False, eofbit = True\<rparr>,
                      cout := cout s' @ concat (replicate (Suc m)
                        (''Enter receiver PID: '' @ ''Invalid or unavailable PID.'' @ [newline]))\<rparr>))) \<and>
   (number_retries k n s = Some (n', s') \<and> buf (cin s') = [] \<longrightarrow>
      (\<forall>m. number_retries (k + Suc m) n s =
         Some (n', s'\<lparr>cin := \<lparr>buf = [], failbit = False, eofbit = True\<rparr>,
                      cout := cout s' @ concat (replicate (Suc m)
                        (''Enter message: '' @
                         ''Invalid input. Please enter a valid number between 0 and 255.'' @
                         [newline]))\<rparr>)))"
proof (intro conjI impI allI)
  show "pid_loop os p s = None \<longleftrightarrow>
      (\<exists>k q t. pid_retries k os p s = Some (q, t) \<and> buf (cin t) = [])"
  proof
    assume "pid_loop os p s = None"
    then show "\<exists>k q t. pid_retries k os p s = Some (q, t) \<and> buf (cin t) = []"
      by (rule pid_loop_runs_out)
  next
    assume "\<exists>k q t. pid_retries k os p s = Some (q, t) \<and> buf (cin t) = []"
    then obtain k q t where r: "pid_retries k os p s = Some (q, t)" and e: "buf (cin t) = []"
      by blast
    show "pid_loop os p s = None"
      using pid_loop_retries [OF r] pid_loop_eof [OF e] by simp
  qed
next
  show "number_loop n s = None \<longleftrightarrow>
      (\<exists>k m t. number_retries k n s = Some (m, t) \<and> buf (cin t) = [])"
  proof
    assume "number_loop n s = None"
    then show "\<exists>k m t. number_retries k n s = Some (m, t) \<and> buf (cin t) = []"
      by (rule number_loop_runs_out)
  next
    assume "\<exists>k m t. number_retries k n s = Some (m, t) \<and> buf (cin t) = []"
    then obtain k m t where r: "number_retries k n s = Some (m, t)" and e: "buf (cin t) = []"
      by blast
    show "number_loop n s = None"
      using number_loop_retries [OF r] number_loop_eof [OF e] by simp
  qed
next
  show "sender_main os p n input = None \<longleftrightarrow>
      pid_loop os p (sender_start input) = None \<or>
      (\<exists>q t. pid_loop os p (sender_start input) = Some (q, t) \<and> number_loop n t = None)"
    by (auto simp: sender_main_def split: option.splits sum.splits)
next
  fix m
  assume "pid_retries k os p s = Some (p', s') \<and> buf (cin s') = []"
  then have r: "pid_retries k os p s = Some (p', s')" and e: "buf (cin s') = []" by simp_all
  show "pid_retries (k + Suc m) os p s =
         Some (p', s'\<lparr>cin := \<lparr>buf = [], failbit = False, eofbit = True\<rparr>,
                      cout := cout s' @ concat (replicate (Suc m)
                        (''Enter receiver PID: '' @ ''Invalid or unavailable PID.'' @ [newline]))\<rparr>)"
    using pid_retries_append [OF r, of "Suc m"] pid_retries_eof [OF e, of m os p'] by simp
next
  fix m
  assume "number_retries k n s = Some (n', s') \<and> buf (cin s') = []"
  then have r: "number_retries k n s = Some (n', s')" and e: "buf (cin s') = []" by simp_all
  show "number_retries (k + Suc m) n s =
         Some (n', s'\<lparr>cin := \<lparr>buf = [], failbit = False, eofbit = True\<rparr>,
                      cout := cout s' @ concat (replicate (Suc m)
                        (''Enter message: '' @
                         ''Invalid input. Please enter a valid number between 0 and 255.'' @
                         [newline]))\<rparr>)"
    using number_retries_append [OF r, of "Suc m"] number_retries_eof [OF e, of m n'] by simp
qed

text \<open>
  The input \<^verbatim>\<open>abc\<close>, \<^verbatim>\<open>0\<close> holds no valid process id: after two passes it is used up and
  the first loop never returns.  The input \<^verbatim>\<open>4242\<close>, \<^verbatim>\<open>300\<close>, \<^verbatim>\<open>12\<close> ends without a newline
  after \<^verbatim>\<open>12\<close>: the second loop never returns.
\<close>

theorem eof_never_terminates_witness:
  "pid_retries 2 (\<lambda>n p. None) 0 (sender_start (''abc'' @ [newline] @ ''0'' @ [newline])) =
     Some (0, \<lparr>cin = \<lparr>buf = [], failbit = False, eofbit = False\<rparr>,
               cout = ''Enter receiver PID: Invalid or unavailable PID.'' @ [newline] @
                      ''Enter receiver PID: Invalid or unavailable PID.'' @ [newline],
               cerr = [], kills = 0, sent = []\<rparr>) \<and>
   pid_loop (\<lambda>n p. None) 0 (sender_start (''abc'' @ [newline] @ ''0'' @ [newline])) = None \<and>
   sender_main (\<lambda>n p. None) 0 0 (''abc'' @ [newline] @ ''0'' @ [newline]) = None \<and>
   pid_retries (2 + Suc 0) (\<lambda>n p. None) 0 (sender_start (''abc'' @ [newline] @ ''0'' @ [newline])) =
     Some (0, \<lparr>cin = \<lparr>buf = [], failbit = False, eofbit = True\<rparr>,
               cout = ''Enter receiver PID: Invalid or unavailable PID.'' @ [newline] @
                      ''Enter receiver PID: Invalid or unavailable PID.'' @ [newline] @
                      ''Enter receiver PID: Invalid or unavailable PID.'' @ [newline],
               cerr = [], kills = 0, sent = []\<rparr>) \<and>
   sender_main (\<lambda>n p. None) 0 0 (''4242'' @ [newline] @ ''300'' @ [newline] @ ''12'') = None"
proof -
  let ?os = "\<lambda>(n::nat) (p::int). None :: errno option"
  let ?in1 = "''abc'' @ [newline] @ ''0'' @ [newline]"
  let ?s1 = "\<lparr>cin = \<lparr>buf = [], failbit = False, eofbit = False\<rparr>,
               cout = ''Enter receiver PID: Invalid or unavailable PID.'' @ [newline] @
                      ''Enter receiver PID: Invalid or unavailable PID.'' @ [newline],
               cerr = [], kills = 0, sent = []\<rparr>"
  have r1: "pid_retries 2 ?os 0 (sender_start ?in1) = Some (0, ?s1)"
    by code_simp
  have e1: "buf (cin ?s1) = []" by simp
  let ?in2 = "''4242'' @ [newline] @ ''300'' @ [newline] @ ''12''"
  let ?t = "\<lparr>cin = \<lparr>buf = [newline] @ ''300'' @ [newline] @ ''12'', failbit = False, eofbit = False\<rparr>,
             cout = ''Enter receiver PID: '', cerr = [], kills = 1, sent = []\<rparr>"
  let ?s2 = "\<lparr>cin = \<lparr>buf = [], failbit = False, eofbit = True\<rparr>,
              cout = ''Enter receiver PID: '' @
                     ''Enter message: Invalid number. Please enter a number between 0 and 255.'' @ [newline] @
                     ''Enter message: Invalid input. Please enter a number between 0 and 255.'' @ [newline],
              cerr = [], kills = 1, sent = []\<rparr>"
  have p2: "pid_loop ?os 0 (sender_start ?in2) = Some (4242, ?t)"
    by code_simp
  have r2: "number_retries 2 0 ?t = Some (12, ?s2)"
    by code_simp
  have e2: "buf (cin ?s2) = []" by simp
  note a = eof_never_terminates [where k = 2 and os = ?os and p = 0 and s = "sender_start ?in1"
      and p' = 0 and s' = ?s1 and input = ?in1 and n = 0]
  note b = eof_never_terminates [where os = ?os and p = 0 and s = ?t and input = ?in2 and n = 0]
  from r1 e1 have x1: "\<exists>k q t. pid_retries k ?os 0 (sender_start ?in1) = Some (q, t) \<and> buf (cin t) = []"
    by blast
  from a x1 have l1: "pid_loop ?os 0 (sender_start ?in1) = None"
    by blast
  from a l1 have m1: "sender_main ?os 0 0 ?in1 = None"
    by blast
  from a r1 e1 have g1: "pid_retries (2 + Suc 0) ?os 0 (sender_start ?in1) =
       Some (0, ?s1\<lparr>cin := \<lparr>buf = [], failbit = False, eofbit = True\<rparr>,
                    cout := cout ?s1 @ concat (replicate (Suc 0)
                              (''Enter receiver PID: '' @ ''Invalid or unavailable PID.'' @ [newline]))\<rparr>)"
    by blast
  from r2 e2 have x2: "\<exists>k m t. number_retries k 0 ?t = Some (m, t) \<and> buf (cin t) = []"
    by blast
  from b x2 have l2: "number_loop 0 ?t = None"
    by blast
  with p2 have "\<exists>q t. pid_loop ?os 0 (sender_start ?in2) = Some (q, t) \<and> number_loop 0 t = None"
    by blast
  with b have m2: "sender_main ?os 0 0 ?in2 = None"
    by blast
  from r1 l1 m1 g1 m2 show ?thesis by simp
qed

section \<open>The claim about re-entrancy\<close>

text \<open>
  Claim C5 (the handler runs with both signals blocked, so it is never nested, and a
  notification of either kind that arrives while it runs is deferred and applied after
  the invocation in progress has completed, never dropped).  The program does not meet
  the second half for every start: \<^verbatim>\<open>main\<close> passes \<^verbatim>\<open>sa\<close> to \<^verbatim>\<open>sigaction\<close> without ever
  assigning \<^verbatim>\<open>sa_flags\<close>, and with \<^verbatim>\<open>SA_RESETHAND\<close> in that field the first delivery of
  \<^verbatim>\<open>SIGUSR1\<close> resets the action of \<^verbatim>\<open>SIGUSR1\<close> to the default.  A second \<^verbatim>\<open>SIGUSR1\<close> that
  arrives while the handler is between its accesses is held pending; when it is
  delivered after the handler has returned, the default action terminates the process.
  The deferred notification is never applied: the process ends with \<^verbatim>\<open>bit_count\<close> 1,
  where handling the two signals one after the other leaves the receiver running with
  \<^verbatim>\<open>bit_count\<close> 2.
\<close>

theorem deferred_signal_kills:
  "run [Arrive SIGUSR1, Deliver SIGUSR1, Run, Run, Arrive SIGUSR1, Run, Run, Run, Run, Run,
        Deliver SIGUSR1]
     (receiver_ready \<lparr>sa_mask = {}, sa_flags = {SA_RESETHAND}\<rparr> {} 77) =
   Some ((receiver_ready \<lparr>sa_mask = {}, sa_flags = {SA_RESETHAND}\<rparr> {} 77)
     \<lparr>globals := \<lparr>bit_count = 1, result = 0, r_cout = ''My PID is '' @ show_int 77 @ [newline]\<rparr>,
      disp := (disp (receiver_ready \<lparr>sa_mask = {}, sa_flags = {SA_RESETHAND}\<rparr> {} 77))
                (SIGUSR1 := SIG_DFL),
      ended := Some (Killed_by SIGUSR1)\<rparr>) \<and>
   receive (receiver_main 77) [SIGUSR1, SIGUSR1] =
   Running \<lparr>bit_count = 2, result = 0, r_cout = ''My PID is '' @ show_int 77 @ [newline]\<rparr>"
proof
  let ?r = "receiver_ready \<lparr>sa_mask = {}, sa_flags = {SA_RESETHAND}\<rparr> {} 77"
  let ?f = "\<lparr>f_sig = SIGUSR1, f_pc = Test_sig, f_reg = 0, f_saved = {}\<rparr>"
  let ?c = "?r\<lparr>pending := {SIGUSR1}, blocked := {SIGUSR1, SIGUSR2}, frames := [?f],
              disp := (disp ?r)(SIGUSR1 := SIG_DFL)\<rparr>"
  let ?k = "?r\<lparr>globals := \<lparr>bit_count = 1, result = 0, r_cout = ''My PID is '' @ show_int 77 @ [newline]\<rparr>,
      disp := (disp ?r)(SIGUSR1 := SIG_DFL), ended := Some (Killed_by SIGUSR1)\<rparr>"
  have r1: "run [Arrive SIGUSR1, Deliver SIGUSR1, Run, Run, Arrive SIGUSR1] ?r = Some ?c"
    by (simp add: step_def receiver_ready_def exec_def sigaddset_def sigemptyset_def Let_def insert_commute)
  have r2: "run [Run, Run, Run, Run, Run, Deliver SIGUSR1] ?c = Some ?k"
    by (simp add: step_def receiver_ready_def exec_def sigaddset_def sigemptyset_def Let_def insert_commute)
  have "run ([Arrive SIGUSR1, Deliver SIGUSR1, Run, Run, Arrive SIGUSR1] @
             [Run, Run, Run, Run, Run, Deliver SIGUSR1]) ?r = Some ?k"
    by (simp only: run_append r1 r2 option.case)
  then show "run [Arrive SIGUSR1, Deliver SIGUSR1, Run, Run, Arrive SIGUSR1, Run, Run, Run, Run, Run,
        Deliver SIGUSR1] ?r = Some ?k"
    by simp
next
  have "bits_val [SIGUSR1, SIGUSR1] = 0" by (simp add: bits_val_def bit_of_def)
  then show "receive (receiver_main 77) [SIGUSR1, SIGUSR1] =
   Running \<lparr>bit_count = 2, result = 0, r_cout = ''My PID is '' @ show_int 77 @ [newline]\<rparr>"
    using receive_prefix [of "[SIGUSR1, SIGUSR1]" 77] by simp
qed

text \<open>
  What the mask does give, whatever the unset fields of \<^verbatim>\<open>sa\<close> hold.  \<^verbatim>\<open>main\<close> installs the
  handler for both signals with both signals in its mask, and in every state the process
  can reach by any sequence of arrivals, deliveries and steps:
  \<^item> at most one invocation of the handler is in progress;
  \<^item> while one is in progress both signals are blocked, so neither can be delivered; a
    signal of either kind that arrives is made pending and changes nothing else; the
    process is where the one-after-the-other handling of the delivered signals would
    be once this invocation has finished undisturbed; and the invocation ends within
    ten steps;
  \<^item> while none is in progress the mask is the initial one, the globals are exactly
    those that handling the delivered signals one after the other gives, and a
    pending signal that the initial mask does not block can be delivered;
  \<^item> when the process has exited, it did so as the one-after-the-other handling does;
  \<^item> a pending signal stays pending through every event but its own delivery.
\<close>

theorem handler_not_reentered:
  assumes "run evs (receiver_ready sa0 mask0 pid) = Some c"
  shows "(\<forall>sig. disp (receiver_ready sa0 mask0 pid) sig = Caught (sa0\<lparr>sa_mask := {SIGUSR1, SIGUSR2}\<rparr>)) \<and>
         length (frames c) \<le> 1 \<and>
         (\<forall>f. ended c = None \<and> frames c = [f] \<longrightarrow>
            {SIGUSR1, SIGUSR2} \<subseteq> blocked c \<and>
            (\<forall>sig. step (Deliver sig) c = None) \<and>
            (\<forall>sig. step (Arrive sig) c = Some (c\<lparr>pending := insert sig (pending c)\<rparr>)) \<and>
            receive (receiver_main pid) (delivered evs) = finish f (globals c) \<and>
            (\<exists>k\<le>10. \<exists>c'. run (replicate k Run) c = Some c' \<and> (ended c' \<noteq> None \<or> frames c' = []))) \<and>
         (ended c = None \<and> frames c = [] \<longrightarrow>
            blocked c = mask0 \<and>
            receive (receiver_main pid) (delivered evs) = Running (globals c) \<and>
            (\<forall>sig. sig \<in> pending c \<and> sig \<notin> mask0 \<longrightarrow> step (Deliver sig) c \<noteq> None)) \<and>
         (\<forall>code. ended c = Some (Exited_with code) \<longrightarrow>
            receive (receiver_main pid) (delivered evs) = Exited code (globals c)) \<and>
         (\<forall>ev c' sig. step ev c = Some c' \<and> sig \<in> pending c \<and> ev \<noteq> Deliver sig \<longrightarrow>
            sig \<in> pending c')"
proof -
  have inv: "serial mask0 pid (delivered evs) c"
    using serial_run [OF serial_ready assms] by simp
  have inst: "\<forall>sig. disp (receiver_ready sa0 mask0 pid) sig = Caught (sa0\<lparr>sa_mask := {SIGUSR1, SIGUSR2}\<rparr>)"
  proof
    fix sig
    show "disp (receiver_ready sa0 mask0 pid) sig = Caught (sa0\<lparr>sa_mask := {SIGUSR1, SIGUSR2}\<rparr>)"
      by (cases sig)
         (simp_all add: receiver_ready_def sigaddset_def sigemptyset_def Let_def insert_commute)
  qed
  have depth: "length (frames c) \<le> 1"
    using inv by (simp add: serial_def)
  have busy: "{SIGUSR1, SIGUSR2} \<subseteq> blocked c \<and>
            (\<forall>sig. step (Deliver sig) c = None) \<and>
            (\<forall>sig. step (Arrive sig) c = Some (c\<lparr>pending := insert sig (pending c)\<rparr>)) \<and>
            receive (receiver_main pid) (delivered evs) = finish f (globals c) \<and>
            (\<exists>k\<le>10. \<exists>c'. run (replicate k Run) c = Some c' \<and> (ended c' \<noteq> None \<or> frames c' = []))"
    if a: "ended c = None \<and> frames c = [f]" for f
  proof -
    from inv a have bb: "both \<subseteq> blocked c"
      and rc: "receive (receiver_main pid) (delivered evs) = finish f (globals c)"
      by (simp_all add: serial_def)
    have nd: "step (Deliver sig) c = None" for sig
      using bb in_both [of sig] by (auto simp: step_def)
    have ar: "step (Arrive sig) c = Some (c\<lparr>pending := insert sig (pending c)\<rparr>)" for sig
      using a by (simp add: step_def)
    from a handler_completes [of c f "[]"] obtain k c' where
      k: "k \<le> Suc (rank (f_pc f))" and r: "run (replicate k Run) c = Some c'"
      and fin: "ended c' \<noteq> None \<or> frames c' = []" by blast
    have "rank (f_pc f) \<le> 9" by (cases "f_pc f") simp_all
    with k have "k \<le> 10" by simp
    with r fin have "\<exists>k\<le>10. \<exists>c'. run (replicate k Run) c = Some c' \<and> (ended c' \<noteq> None \<or> frames c' = [])"
      by blast
    with bb rc nd ar show ?thesis by (simp add: both_def)
  qed
  have idle: "blocked c = mask0 \<and>
            receive (receiver_main pid) (delivered evs) = Running (globals c) \<and>
            (\<forall>sig. sig \<in> pending c \<and> sig \<notin> mask0 \<longrightarrow> step (Deliver sig) c \<noteq> None)"
    if a: "ended c = None \<and> frames c = []"
  proof -
    from inv a have bl: "blocked c = mask0"
      and rc: "receive (receiver_main pid) (delivered evs) = Running (globals c)"
      by (simp_all add: serial_def)
    have "step (Deliver sig) c \<noteq> None" if "sig \<in> pending c \<and> sig \<notin> mask0" for sig
      using that a bl by (auto simp: step_def split: disposition.splits)
    with bl rc show ?thesis by blast
  qed
  have ex: "receive (receiver_main pid) (delivered evs) = Exited code (globals c)"
    if "ended c = Some (Exited_with code)" for code
    using inv that by (simp add: serial_def)
  have keep: "sig \<in> pending c'" if "step ev c = Some c' \<and> sig \<in> pending c \<and> ev \<noteq> Deliver sig"
    for ev c' sig
    using that pending_kept [of ev c c' sig] by blast
  from inst depth busy idle ex keep show ?thesis by blast
qed

text \<open>
  A run in which \<^verbatim>\<open>SIGUSR1\<close> and a second \<^verbatim>\<open>SIGUSR2\<close> arrive while the handler for \<^verbatim>\<open>SIGUSR2\<close>
  is between its accesses: neither can be delivered there, and after the handler has
  returned and \<^verbatim>\<open>SIGUSR1\<close> has been handled the globals are those of handling
  \<^verbatim>\<open>SIGUSR2, SIGUSR1\<close> in turn.
\<close>

theorem handler_not_reentered_witness:
  "run [Arrive SIGUSR2, Deliver SIGUSR2, Run, Run, Arrive SIGUSR1, Arrive SIGUSR2]
     (receiver_ready \<lparr>sa_mask = {SIGUSR1}, sa_flags = {SA_NODEFER}\<rparr> {} 77) =
   Some ((receiver_ready \<lparr>sa_mask = {SIGUSR1}, sa_flags = {SA_NODEFER}\<rparr> {} 77)
     \<lparr>pending := {SIGUSR1, SIGUSR2}, blocked := {SIGUSR1, SIGUSR2},
      frames := [\<lparr>f_sig = SIGUSR2, f_pc = Test_sig, f_reg = 0, f_saved = {}\<rparr>]\<rparr>) \<and>
   step (Deliver SIGUSR1)
     ((receiver_ready \<lparr>sa_mask = {SIGUSR1}, sa_flags = {SA_NODEFER}\<rparr> {} 77)
       \<lparr>pending := {SIGUSR1, SIGUSR2}, blocked := {SIGUSR1, SIGUSR2},
        frames := [\<lparr>f_sig = SIGUSR2, f_pc = Test_sig, f_reg = 0, f_saved = {}\<rparr>]\<rparr>) = None \<and>
   receive (receiver_main 77) [SIGUSR2] =
     finish \<lparr>f_sig = SIGUSR2, f_pc = Test_sig, f_reg = 0, f_saved = {}\<rparr>
       \<lparr>bit_count = 0, result = 0, r_cout = ''My PID is '' @ show_int 77 @ [newline]\<rparr> \<and>
   run [Arrive SIGUSR2, Deliver SIGUSR2, Run, Run, Arrive SIGUSR1, Arrive SIGUSR2,
        Run, Run, Run, Run, Run, Run, Run, Deliver SIGUSR1, Run, Run, Run, Run, Run, Run, Run]
     (receiver_ready \<lparr>sa_mask = {SIGUSR1}, sa_flags = {SA_NODEFER}\<rparr> {} 77) =
   Some ((receiver_ready \<lparr>sa_mask = {SIGUSR1}, sa_flags = {SA_NODEFER}\<rparr> {} 77)
     \<lparr>globals := \<lparr>bit_count = 2, result = 2, r_cout = ''My PID is '' @ show_int 77 @ [newline]\<rparr>,
      pending := {SIGUSR2}\<rparr>) \<and>
   receive (receiver_main 77) [SIGUSR2, SIGUSR1] =
     Running \<lparr>bit_count = 2, result = 2, r_cout = ''My PID is '' @ show_int 77 @ [newline]\<rparr>"
proof -
  let ?sa0 = "\<lparr>sa_mask = {SIGUSR1}, sa_flags = {SA_NODEFER}\<rparr>"
  let ?r = "receiver_ready ?sa0 {} 77"
  let ?evs = "[Arrive SIGUSR2, Deliver SIGUSR2, Run, Run, Arrive SIGUSR1, Arrive SIGUSR2]"
  let ?f = "\<lparr>f_sig = SIGUSR2, f_pc = Test_sig, f_reg = 0, f_saved = {}\<rparr>"
  let ?c = "?r\<lparr>pending := {SIGUSR1, SIGUSR2}, blocked := {SIGUSR1, SIGUSR2}, frames := [?f]\<rparr>"
  let ?more = "[Run, Run, Run, Run, Run, Run, Run, Deliver SIGUSR1, Run, Run, Run, Run, Run, Run, Run]"
  let ?g2 = "\<lparr>bit_count = 2, result = 2, r_cout = ''My PID is '' @ show_int 77 @ [newline]\<rparr>"
  let ?c2 = "?r\<lparr>globals := ?g2, pending := {SIGUSR2}\<rparr>"
  have r1: "run ?evs ?r = Some ?c"
    by (simp add: step_def receiver_ready_def exec_def sigaddset_def sigemptyset_def Let_def insert_commute)
  have r2: "run ?more ?c = Some ?c2"
    by (simp add: step_def receiver_ready_def exec_def sigaddset_def sigemptyset_def Let_def insert_commute)
  have r3: "run (?evs @ ?more) ?r = Some ?c2"
    by (simp only: run_append r1 r2 option.case)
  have a: "ended ?c = None \<and> frames ?c = [?f]"
    by (simp add: receiver_ready_def Let_def)
  have b: "ended ?c2 = None \<and> frames ?c2 = []"
    by (simp add: receiver_ready_def Let_def)
  from handler_not_reentered [OF r1] a
  have "step (Deliver SIGUSR1) ?c = None"
    and "receive (receiver_main 77) (delivered ?evs) = finish ?f (globals ?c)"
    by blast+
  moreover from handler_not_reentered [OF r3] b
  have "receive (receiver_main 77) (delivered (?evs @ ?more)) = Running (globals ?c2)"
    by blast
  moreover have "globals ?c = \<lparr>bit_count = 0, result = 0, r_cout = ''My PID is '' @ show_int 77 @ [newline]\<rparr>"
    by (simp add: receiver_ready_def Let_def)
  ultimately show ?thesis
    using r1 r3 by simp
qed


text \<open>
  With \<^verbatim>\<open>SA_RESETHAND\<close> absent from the unset flags, the deferred notification is applied.
  From any reachable state in which an invocation is in progress, after the arrival of
  a signal the initial mask does not block and at most ten steps: the process has never
  been killed; and unless the invocation in progress has exited, it has returned, the
  signal is still pending, the globals are those of handling the delivered signals one
  after the other, the signal can be delivered, and its delivery starts the handler
  for it, whose undisturbed run gives the handling of the delivered signals followed
  by this one.
\<close>

theorem deferred_then_handled:
  assumes nr: "SA_RESETHAND \<notin> sa_flags sa0"
    and r: "run evs (receiver_ready sa0 mask0 pid) = Some c"
    and alive: "ended c = None" and busy: "frames c = [f]" and free: "sig \<notin> mask0"
  shows "\<exists>k\<le>10. \<exists>c'. run (Arrive sig # replicate k Run) c = Some c' \<and>
           (\<forall>s. ended c' \<noteq> Some (Killed_by s)) \<and>
           (ended c' = None \<longrightarrow>
              frames c' = [] \<and> sig \<in> pending c' \<and>
              receive (receiver_main pid) (delivered evs) = Running (globals c') \<and>
              step (Deliver sig) c' =
                Some (c'\<lparr>pending := pending c' - {sig},
                         frames := [\<lparr>f_sig = sig, f_pc = Load_result, f_reg = 0, f_saved = mask0\<rparr>],
                         blocked := mask0 \<union> {SIGUSR1, SIGUSR2} \<union>
                                    (if SA_NODEFER \<in> sa_flags sa0 then {} else {sig})\<rparr>) \<and>
              finish \<lparr>f_sig = sig, f_pc = Load_result, f_reg = 0, f_saved = mask0\<rparr> (globals c') =
                receive (receiver_main pid) (delivered evs @ [sig]))"
proof -
  let ?c1 = "c\<lparr>pending := insert sig (pending c)\<rparr>"
  have a: "step (Arrive sig) c = Some ?c1"
    using alive by (simp add: step_def)
  have "ended ?c1 = None" "frames ?c1 = f # []" using alive busy by simp_all
  from handler_completes [OF this] obtain k c' where
    k: "k \<le> Suc (rank (f_pc f))" and rk: "run (replicate k Run) ?c1 = Some c'"
    and fin: "ended c' \<noteq> None \<or> frames c' = []" by blast
  have "rank (f_pc f) \<le> 9" by (cases "f_pc f") simp_all
  with k have k10: "k \<le> 10" by simp
  have tail: "run (Arrive sig # replicate k Run) c = Some c'"
    using a rk by simp
  have whole: "run (evs @ Arrive sig # replicate k Run) (receiver_ready sa0 mask0 pid) = Some c'"
    using r tail by (simp add: run_append)
  from never_killed [OF nr whole]
  have act: "\<forall>s. disp c' s = Caught (sa0\<lparr>sa_mask := {SIGUSR1, SIGUSR2}\<rparr>)"
    and nk: "\<forall>s. ended c' \<noteq> Some (Killed_by s)" by simp_all
  have d: "delivered (evs @ Arrive sig # replicate k Run) = delivered evs"
    by (simp add: delivered_append delivered_runs)
  have inv: "serial mask0 pid (delivered evs) c'"
    using serial_run [OF serial_ready whole] d by simp
  have idle: "frames c' = [] \<and> sig \<in> pending c' \<and>
              receive (receiver_main pid) (delivered evs) = Running (globals c') \<and>
              step (Deliver sig) c' =
                Some (c'\<lparr>pending := pending c' - {sig},
                         frames := [\<lparr>f_sig = sig, f_pc = Load_result, f_reg = 0, f_saved = mask0\<rparr>],
                         blocked := mask0 \<union> {SIGUSR1, SIGUSR2} \<union>
                                    (if SA_NODEFER \<in> sa_flags sa0 then {} else {sig})\<rparr>) \<and>
              finish \<lparr>f_sig = sig, f_pc = Load_result, f_reg = 0, f_saved = mask0\<rparr> (globals c') =
                receive (receiver_main pid) (delivered evs @ [sig])"
    if e: "ended c' = None"
  proof -
    from fin e have fr: "frames c' = []" by simp
    with inv e have bl: "blocked c' = mask0"
      and rc: "receive (receiver_main pid) (delivered evs) = Running (globals c')"
      by (simp_all add: serial_def)
    have pe: "sig \<in> pending c'"
      using runs_keep_pending [OF rk] by simp
    have st: "step (Deliver sig) c' =
                Some (c'\<lparr>pending := pending c' - {sig},
                         frames := [\<lparr>f_sig = sig, f_pc = Load_result, f_reg = 0, f_saved = mask0\<rparr>],
                         blocked := mask0 \<union> {SIGUSR1, SIGUSR2} \<union>
                                    (if SA_NODEFER \<in> sa_flags sa0 then {} else {sig})\<rparr>)"
      using e fr bl pe free act nr by (simp add: step_def)
    have "finish \<lparr>f_sig = sig, f_pc = Load_result, f_reg = 0, f_saved = mask0\<rparr> (globals c') =
                receive (receiver_main pid) (delivered evs @ [sig])"
      by (simp add: finish_start receive_snoc rc)
    with fr pe rc st show ?thesis by simp
  qed
  from idle have idle': "ended c' = None \<longrightarrow>
              frames c' = [] \<and> sig \<in> pending c' \<and>
              receive (receiver_main pid) (delivered evs) = Running (globals c') \<and>
              step (Deliver sig) c' =
                Some (c'\<lparr>pending := pending c' - {sig},
                         frames := [\<lparr>f_sig = sig, f_pc = Load_result, f_reg = 0, f_saved = mask0\<rparr>],
                         blocked := mask0 \<union> {SIGUSR1, SIGUSR2} \<union>
                                    (if SA_NODEFER \<in> sa_flags sa0 then {} else {sig})\<rparr>) \<and>
              finish \<lparr>f_sig = sig, f_pc = Load_result, f_reg = 0, f_saved = mask0\<rparr> (globals c') =
                receive (receiver_main pid) (delivered evs @ [sig])"
    by (rule impI)
  show ?thesis
    by (rule exI [of _ k], rule conjI [OF k10], rule exI [of _ c'],
        rule conjI [OF tail], rule conjI [OF nk], rule idle')
qed


text \<open>
  Such a state: \<^verbatim>\<open>SIGUSR1\<close> arrives while the handler for \<^verbatim>\<open>SIGUSR2\<close> is between its
  accesses, with \<^verbatim>\<open>SA_NODEFER\<close> alone in the unset flags.
\<close>

theorem deferred_then_handled_witness:
  "SA_RESETHAND \<notin> sa_flags \<lparr>sa_mask = {SIGUSR1}, sa_flags = {SA_NODEFER}\<rparr> \<and>
   run [Arrive SIGUSR2, Deliver SIGUSR2, Run, Run]
     (receiver_ready \<lparr>sa_mask = {SIGUSR1}, sa_flags = {SA_NODEFER}\<rparr> {} 77) =
   Some ((receiver_ready \<lparr>sa_mask = {SIGUSR1}, sa_flags = {SA_NODEFER}\<rparr> {} 77)
     \<lparr>blocked := {SIGUSR1, SIGUSR2},
      frames := [\<lparr>f_sig = SIGUSR2, f_pc = Test_sig, f_reg = 0, f_saved = {}\<rparr>]\<rparr>) \<and>
   (\<exists>k\<le>10. \<exists>c'.
      run (Arrive SIGUSR1 # replicate k Run)
        ((receiver_ready \<lparr>sa_mask = {SIGUSR1}, sa_flags = {SA_NODEFER}\<rparr> {} 77)
          \<lparr>blocked := {SIGUSR1, SIGUSR2},
           frames := [\<lparr>f_sig = SIGUSR2, f_pc = Test_sig, f_reg = 0, f_saved = {}\<rparr>]\<rparr>) = Some c' \<and>
      (\<forall>s. ended c' \<noteq> Some (Killed_by s)) \<and>
      (ended c' = None \<longrightarrow>
         frames c' = [] \<and> SIGUSR1 \<in> pending c' \<and>
         receive (receiver_main 77) [SIGUSR2] = Running (globals c') \<and>
         step (Deliver SIGUSR1) c' =
           Some (c'\<lparr>pending := pending c' - {SIGUSR1},
                    frames := [\<lparr>f_sig = SIGUSR1, f_pc = Load_result, f_reg = 0, f_saved = {}\<rparr>],
                    blocked := {SIGUSR1, SIGUSR2}\<rparr>) \<and>
         finish \<lparr>f_sig = SIGUSR1, f_pc = Load_result, f_reg = 0, f_saved = {}\<rparr> (globals c') =
           receive (receiver_main 77) [SIGUSR2, SIGUSR1]))"
proof -
  let ?sa0 = "\<lparr>sa_mask = {SIGUSR1}, sa_flags = {SA_NODEFER}\<rparr>"
  let ?r = "receiver_ready ?sa0 {} 77"
  let ?evs = "[Arrive SIGUSR2, Deliver SIGUSR2, Run, Run]"
  let ?f = "\<lparr>f_sig = SIGUSR2, f_pc = Test_sig, f_reg = 0, f_saved = {}\<rparr>"
  let ?c = "?r\<lparr>blocked := {SIGUSR1, SIGUSR2}, frames := [?f]\<rparr>"
  have nr: "SA_RESETHAND \<notin> sa_flags ?sa0" by simp
  have r1: "run ?evs ?r = Some ?c"
    by (simp add: step_def receiver_ready_def exec_def sigaddset_def sigemptyset_def Let_def insert_commute)
  have a: "ended ?c = None" and b: "frames ?c = [?f]"
    by (simp_all add: receiver_ready_def Let_def)
  have fr: "SIGUSR1 \<notin> ({} :: signal set)" by simp
  from deferred_then_handled [OF nr r1 a b fr] nr r1
  show ?thesis by simp
qed

end
